theory Spec2Isabelle
  imports Complex_Main "HOL-Library.Sublist" "HOL-Library.AList"
begin

section \<open>Python strings\<close>

text \<open>
  A Python \<open>str\<close> is modelled as a \<open>string\<close>: the list of its code points, each an
  8-bit character (the Latin-1 range, which holds every constant of the program).
  \<open>len\<close> is \<open>length\<close>. The library methods the matcher calls are written out below
  with the results CPython gives on such strings.
\<close>

text \<open>\<open>str.isspace\<close> on one character, also what \<open>\s\<close> matches in a \<open>str\<close> pattern.\<close>

definition isspace :: "char \<Rightarrow> bool" where
  "isspace c = (of_char c \<in> {9, 10, 11, 12, 13, 28, 29, 30, 31, 32, 133, 160 :: nat})"

text \<open>\<open>s.strip()\<close>: whitespace removed from both ends.\<close>

definition str_strip :: "string \<Rightarrow> string" where
  "str_strip s = rev (dropWhile isspace (rev (dropWhile isspace s)))"

text \<open>\<open>s.startswith(p)\<close> and \<open>s.endswith(p)\<close>.\<close>

definition startswith :: "string \<Rightarrow> string \<Rightarrow> bool" where
  "startswith s p = (take (length p) s = p)"

definition endswith :: "string \<Rightarrow> string \<Rightarrow> bool" where
  "endswith s p = (length p \<le> length s \<and> drop (length s - length p) s = p)"

text \<open>
  Slicing \<open>s[start:stop]\<close>, either bound optional. A negative bound counts from the
  end, every bound is clamped to the string, and \<open>-0\<close> is \<open>0\<close>: \<open>s[-0:]\<close> is all of \<open>s\<close>.
\<close>

definition clamp_index :: "nat \<Rightarrow> int \<Rightarrow> nat" where
  "clamp_index n i = (if i < 0 then nat (max 0 (int n + i)) else min (nat i) n)"

definition slice :: "'a list \<Rightarrow> int option \<Rightarrow> int option \<Rightarrow> 'a list" where
  "slice s start stop =
     (let n = length s;
          a = (case start of None \<Rightarrow> 0 | Some i \<Rightarrow> clamp_index n i);
          b = (case stop of None \<Rightarrow> n | Some j \<Rightarrow> clamp_index n j)
      in take (b - a) (drop a s))"

text \<open>
  \<open>s.find(sub)\<close> and \<open>s.rfind(sub)\<close>: the index of the first and of the last
  occurrence, \<open>-1\<close> when there is none.
\<close>

fun find_from :: "string \<Rightarrow> string \<Rightarrow> nat \<Rightarrow> int" where
  "find_from sub [] i = (if sub = [] then int i else - 1)"
| "find_from sub (c # cs) i =
     (if startswith (c # cs) sub then int i else find_from sub cs (Suc i))"

definition str_find :: "string \<Rightarrow> string \<Rightarrow> int" where
  "str_find s sub = find_from sub s 0"

fun rfind_from :: "string \<Rightarrow> string \<Rightarrow> nat \<Rightarrow> int \<Rightarrow> int" where
  "rfind_from sub [] i found = (if sub = [] then int i else found)"
| "rfind_from sub (c # cs) i found =
     rfind_from sub cs (Suc i) (if startswith (c # cs) sub then int i else found)"

definition str_rfind :: "string \<Rightarrow> string \<Rightarrow> int" where
  "str_rfind s sub = rfind_from sub s 0 (- 1)"

text \<open>\<open>sub in s\<close>.\<close>

definition str_in :: "string \<Rightarrow> string \<Rightarrow> bool" where
  "str_in sub s = (str_find s sub \<noteq> - 1)"

text \<open>
  Case mapping. \<open>lower\<close> is applied to arbitrary text; on Latin-1 it moves \<open>A-Z\<close> and
  the accented capitals down by 32. \<open>upper\<close> and \<open>title\<close> are applied to the fixed
  ASCII section markers only.
\<close>

definition is_upper :: "char \<Rightarrow> bool" where
  "is_upper c = (let n = of_char c :: nat in
     (65 \<le> n \<and> n \<le> 90) \<or> (192 \<le> n \<and> n \<le> 222 \<and> n \<noteq> 215))"

definition is_lower :: "char \<Rightarrow> bool" where
  "is_lower c = (let n = of_char c :: nat in
     (97 \<le> n \<and> n \<le> 122) \<or> (224 \<le> n \<and> n \<le> 254 \<and> n \<noteq> 247))"

definition lower_char :: "char \<Rightarrow> char" where
  "lower_char c = (if is_upper c then char_of (of_char c + 32 :: nat) else c)"

definition upper_char :: "char \<Rightarrow> char" where
  "upper_char c = (if is_lower c then char_of (of_char c - 32 :: nat) else c)"

definition str_lower :: "string \<Rightarrow> string" where
  "str_lower s = map lower_char s"

definition str_upper :: "string \<Rightarrow> string" where
  "str_upper s = map upper_char s"

text \<open>
  \<open>s.title()\<close>: a cased character that follows an uncased one is put in upper case,
  one that follows a cased one in lower case.
\<close>

fun title_from :: "bool \<Rightarrow> string \<Rightarrow> string" where
  "title_from prev [] = []"
| "title_from prev (c # cs) =
     (if is_lower c then (if prev then c else upper_char c) # title_from True cs
      else if is_upper c then (if prev then lower_char c else c) # title_from True cs
      else c # title_from False cs)"

definition str_title :: "string \<Rightarrow> string" where
  "str_title s = title_from False s"

text \<open>
  \<open>s.replace(old, new)\<close>: every occurrence of \<open>old\<close>, found from the left without
  overlap, becomes \<open>new\<close>; an empty \<open>old\<close> matches between all characters.
\<close>

fun replace_scan :: "string \<Rightarrow> string \<Rightarrow> string \<Rightarrow> string" where
  "replace_scan old new [] = []"
| "replace_scan old new (c # cs) =
     (if old \<noteq> [] \<and> startswith (c # cs) old
      then new @ replace_scan old new (drop (length old) (c # cs))
      else c # replace_scan old new cs)"

definition str_replace :: "string \<Rightarrow> string \<Rightarrow> string \<Rightarrow> string" where
  "str_replace s old new =
     (if old = [] then new @ concat (map (\<lambda>c. c # new) s) else replace_scan old new s)"

section \<open>Python floats\<close>

text \<open>
  The budgeting step divides two integers and multiplies a length by the quotient, in
  IEEE double precision. A non-negative double is the pair \<open>(m, e)\<close> that stands for
  \<open>m * 2 ^ e\<close>; every operation rounds its exact result to 53 significant bits, to
  nearest, ties to the even significand. The exponent is not bounded: overflow and
  subnormal results need operands beyond \<open>2 ^ 1000\<close>, which no string length reaches.
\<close>

type_synonym pyfloat = "nat \<times> int"

fun bit_length :: "nat \<Rightarrow> nat" where
  "bit_length n = (if n = 0 then 0 else Suc (bit_length (n div 2)))"

declare bit_length.simps [simp del]

definition round_half_even :: "nat \<Rightarrow> nat \<Rightarrow> nat" where
  "round_half_even num den =
     (let q = num div den; r = num mod den
      in if 2 * r < den then q
         else if den < 2 * r then q + 1
         else if even q then q else q + 1)"

text \<open>The double nearest to \<open>(p / q) * 2 ^ e\<close>.\<close>

definition to_double :: "nat \<Rightarrow> nat \<Rightarrow> int \<Rightarrow> pyfloat" where
  "to_double p q e =
     (let k = int (bit_length p) - int (bit_length q) - 53;
          k' = (if p * 2 ^ nat (- k) < 2 ^ 53 * (q * 2 ^ nat k) then k else k + 1)
      in (round_half_even (p * 2 ^ nat (- k')) (q * 2 ^ nat k'), e + k'))"

text \<open>\<open>float(n)\<close>, \<open>a / b\<close> on integers, \<open>x * y\<close> on floats, and \<open>int(x)\<close>.\<close>

definition float_of_int :: "nat \<Rightarrow> pyfloat" where
  "float_of_int n = to_double n 1 0"

definition int_truediv :: "nat \<Rightarrow> nat \<Rightarrow> pyfloat" where
  "int_truediv a b = to_double a b 0"

definition float_mul :: "pyfloat \<Rightarrow> pyfloat \<Rightarrow> pyfloat" where
  "float_mul x y = to_double (fst x * fst y) 1 (snd x + snd y)"

definition int_of_float :: "pyfloat \<Rightarrow> nat" where
  "int_of_float x =
     (if 0 \<le> snd x then fst x * 2 ^ nat (snd x) else fst x div 2 ^ nat (- snd x))"

text \<open>The value a pair stands for.\<close>

definition float_val :: "pyfloat \<Rightarrow> real" where
  "float_val x = real (fst x) * 2 powi (snd x)"

section \<open>The input budgeter\<close>

definition truncation_marker :: string where
  "truncation_marker = ''\<newline>[...content truncated...]\<newline>''"

text \<open>\<open>JobMatcher._truncate_text\<close>.\<close>

definition truncate_text :: "string \<Rightarrow> int \<Rightarrow> string" where
  "truncate_text text max_chars =
     (if int (length text) \<le> max_chars then text
      else let half_length = max_chars div 2
           in slice text None (Some half_length) @ truncation_marker
              @ slice text (Some (- half_length)) None)"

text \<open>\<open>JobMatcher._estimate_tokens\<close>.\<close>

definition estimate_tokens :: "string \<Rightarrow> nat" where
  "estimate_tokens text = length text div 4"

definition max_total_tokens :: nat where
  "max_total_tokens = 6000"

text \<open>
  The character target of one text, \<open>int(len(text) * reduction_factor)\<close> with
  \<open>reduction_factor = max_total_tokens / (resume_tokens + job_tokens)\<close>.
\<close>

definition max_chars_of :: "string \<Rightarrow> nat \<Rightarrow> nat" where
  "max_chars_of text total_tokens =
     (let reduction_factor = int_truediv max_total_tokens total_tokens
      in int_of_float (float_mul (float_of_int (length text)) reduction_factor))"

text \<open>The budgeting step that opens \<open>JobMatcher.evaluate_match\<close>.\<close>

definition budget_inputs :: "string \<Rightarrow> string \<Rightarrow> string \<times> string" where
  "budget_inputs resume job_posting =
     (let resume_tokens = estimate_tokens resume;
          job_tokens = estimate_tokens job_posting
      in if resume_tokens + job_tokens > max_total_tokens
         then let max_resume_chars = max_chars_of resume (resume_tokens + job_tokens);
                  max_job_chars = max_chars_of job_posting (resume_tokens + job_tokens)
              in (truncate_text resume (int max_resume_chars),
                  truncate_text job_posting (int max_job_chars))
         else (resume, job_posting))"

section \<open>The prompt composer\<close>

definition skills_section_markers :: "string list" where
  "skills_section_markers =
     [''SKILLS'', ''TECHNICAL SKILLS'', ''TECHNOLOGIES'', ''CORE COMPETENCIES'',
      ''EXPERTISE'', ''PROFICIENCIES'', ''TECHNICAL EXPERTISE'', ''TOOLS'']"

definition section_tag :: string where
  "section_tag = ''>>>SKILLS_SECTION<<< ''"

text \<open>
  One round of the loop over the markers: three \<open>replace\<close> calls, for the marker as
  given, in title case and in upper case.
\<close>

definition highlight_marker :: "string \<Rightarrow> string \<Rightarrow> string" where
  "highlight_marker marker highlighted_resume =
     (let h1 = str_replace highlighted_resume (marker @ '':'') (section_tag @ marker @ '':'');
          h2 = str_replace h1 (str_title marker @ '':'')
                 (section_tag @ str_title marker @ '':'');
          h3 = str_replace h2 (str_upper marker @ '':'')
                 (section_tag @ str_upper marker @ '':'')
      in h3)"

definition highlight :: "string list \<Rightarrow> string \<Rightarrow> string" where
  "highlight markers resume = foldl (\<lambda>h marker. highlight_marker marker h) resume markers"

text \<open>The three instruction templates, character for character.\<close>

definition extract_prompt :: "string \<Rightarrow> string" where
  \<open>extract_prompt highlighted_resume =
     ''You are an expert resume analyzer with deep knowledge of the tech industry. Your primary task is to extract ALL skills from this resume.\<newline>''
     @ ''            \<newline>''
     @ ''            Resume content:\<newline>''
     @ ''            ''
     @ highlighted_resume
     @ ''\<newline>''
     @ ''            \<newline>''
     @ ''            CRITICAL INSTRUCTIONS:\<newline>''
     @ ''            1. Pay special attention to any sections marked with >>>SKILLS_SECTION<<< as they contain important skills\<newline>''
     @ ''            2. Look for technical skills throughout the ENTIRE resume, including in project descriptions and work experience\<newline>''
     @ ''            3. Extract ALL programming languages, frameworks, tools, platforms, and technologies mentioned ANYWHERE in the resume\<newline>''
     @ ''            4. Be THOROUGH and COMPREHENSIVE - do not miss any skills mentioned in the resume\<newline>''
     @ ''            5. After extracting explicit skills, infer related skills that would be necessary for the mentioned projects and roles\<newline>''
     @ ''            \<newline>''
     @ ''            For example, if you see:\<newline>''
     @ ''            - React -> also infer JavaScript, HTML, CSS, Git\<newline>''
     @ ''            - Machine Learning -> also infer Python, data analysis\<newline>''
     @ ''            - AWS -> also infer cloud deployment, infrastructure\<newline>''
     @ ''            \<newline>''
     @ ''            Return a JSON object with these fields:\<newline>''
     @ ''            {\<newline>''
     @ ''                "ExplicitSkills": [COMPREHENSIVE list of ALL technical skills explicitly mentioned ANYWHERE in the resume],\<newline>''
     @ ''                "InferredSkills": [list of related skills that can be reasonably inferred from experience and projects],\<newline>''
     @ ''                "Experience": [list of work experiences in format "Company - Title (Time Period)" or as much info as available],\<newline>''
     @ ''                "Education": [list of education items],\<newline>''
     @ ''                "YearsOfExperience": estimated total years or "Unknown" if unclear,\<newline>''
     @ ''                "ProjectTypes": [types of projects the candidate has worked on, like "Web Applications", "Mobile Apps", etc.]\<newline>''
     @ ''            }\<newline>''
     @ ''            \<newline>''
     @ ''            Format your response as valid JSON only. No explanations, just the JSON.\<newline>''
     @ ''            ''\<close>

definition match_prompt :: "string \<Rightarrow> string \<Rightarrow> string" where
  \<open>match_prompt resume_analysis job_posting =
     ''You are an expert job recruiter with decades of experience matching candidates to positions.\<newline>''
     @ ''            \<newline>''
     @ ''            CANDIDATE PROFILE (from resume analysis):\<newline>''
     @ ''            ''
     @ resume_analysis
     @ ''\<newline>''
     @ ''            \<newline>''
     @ ''            JOB POSTING:\<newline>''
     @ ''            ''
     @ job_posting
     @ ''\<newline>''
     @ ''            \<newline>''
     @ ''            Your task is to determine if this candidate is a good match for this job:\<newline>''
     @ ''            \<newline>''
     @ ''            1. First, identify the key skills and requirements from the job posting\<newline>''
     @ ''            2. Compare these with BOTH the candidate's explicit skills AND inferred skills\<newline>''
     @ ''            3. Consider the candidate's project types and experience level\<newline>''
     @ ''            4. Make a balanced assessment based on all available information\<newline>''
     @ ''            \<newline>''
     @ ''            IMPORTANT GUIDELINES:\<newline>''
     @ ''            - Use both explicit AND inferred skills when evaluating the match\<newline>''
     @ ''            - Consider the candidate's project experience - someone who has built similar projects likely has the necessary skills\<newline>''
     @ ''            - Be reasonable about skill gaps - focus on core requirements, not every single mentioned technology\<newline>''
     @ ''            - For frontend developers, assume familiarity with Git, GitHub, UI/UX principles, and common development tools\<newline>''
     @ ''            - For backend developers, assume familiarity with databases, API design, and server management\<newline>''
     @ ''            - For full-stack developers, assume familiarity with deployment, CI/CD concepts, and end-to-end application development\<newline>''
     @ ''            - IMPORTANT: Use a LOWER threshold for matching - a score of 50% or higher should be considered a match\<newline>''
     @ ''            - Be optimistic about the candidate's ability to learn new skills quickly\<newline>''
     @ ''            \<newline>''
     @ ''            Return your analysis in this JSON format:\<newline>''
     @ ''            {\<newline>''
     @ ''                "is_match": true/false (set to true if match_percentage >= 50),\<newline>''
     @ ''                "match_percentage": number between 0-100,\<newline>''
     @ ''                "matching_skills": [skills from the candidate that match job requirements, including both explicit and inferred skills],\<newline>''
     @ ''                "missing_skills": [important core skills/requirements the candidate truly lacks],\<newline>''
     @ ''                "reason": "clear explanation of your decision that considers both explicit and inferred skills"\<newline>''
     @ ''            }\<newline>''
     @ ''            \<newline>''
     @ ''            If you can't properly analyze the match due to missing information, set is_match to false and explain why in the reason field.\<newline>''
     @ ''            ''\<close>

definition simple_prompt :: "string \<Rightarrow> string \<Rightarrow> string" where
  \<open>simple_prompt resume job_posting =
     ''You are an expert job interviewer with decades of experience. Analyze the resume and job posting to determine if the candidate is a good fit. Be critical in your assessment and accept only applicants that meet at least 75% of the requirements.\<newline>''
     @ ''            \<newline>''
     @ ''            Resume:\<newline>''
     @ ''            ''
     @ resume
     @ ''\<newline>''
     @ ''            \<newline>''
     @ ''            Job Posting:\<newline>''
     @ ''            ''
     @ job_posting
     @ ''\<newline>''
     @ ''            \<newline>''
     @ ''            Determine if this candidate is a good fit and explain why briefly.\<newline>''
     @ ''            Return your response in JSON format with the following structure:\<newline>''
     @ ''            {\<newline>''
     @ ''                "is_match": true/false,\<newline>''
     @ ''                "reason": "brief explanation of why the candidate is or isn't a good fit"\<newline>''
     @ ''            }\<newline>''
     @ ''            ''\<close>

definition system_message :: string where
  "system_message = ''You are an expert job interviewer. Be extremely critical and only recommend jobs that are a very strong match for the candidate's specific skills and experience.''"

section \<open>External collaborators\<close>

text \<open>
  Values of \<open>json.loads\<close>. A float is finite, infinite or not a number (\<open>json.loads\<close>
  accepts \<open>NaN\<close> and \<open>Infinity\<close>). An object keeps its keys in order.
\<close>

datatype float_value = Finite real | Infinite bool | NaN

datatype json =
    JNull
  | JBool bool
  | JInt int
  | JFloat float_value
  | JStr string
  | JArr "json list"
  | JObj "(string \<times> json) list"

text \<open>
  An exception, with the text \<open>str(e)\<close> gives. The handlers of the matcher tell
  \<open>json.JSONDecodeError\<close> from every other \<open>Exception\<close>.
\<close>

datatype py_exception = JSONDecodeError string | OtherException string

fun exception_str :: "py_exception \<Rightarrow> string" where
  "exception_str (JSONDecodeError m) = m"
| "exception_str (OtherException m) = m"

text \<open>
  The matcher calls three functions it does not define. \<open>create\<close> is
  \<open>openai.ChatCompletion.create\<close> with the model and temperature the matcher fixes,
  followed by \<open>.choices[0].message.content\<close>: from the list of (role, content)
  messages to the response text, or the exception raised on the way. \<open>loads\<close> is
  \<open>json.loads\<close>, \<open>dumps\<close> is \<open>json.dumps\<close> with \<open>indent=2\<close>.
\<close>

record externals =
  create :: "(string \<times> string) list \<Rightarrow> py_exception + string"
  loads :: "string \<Rightarrow> py_exception + json"
  dumps :: "json \<Rightarrow> string"

text \<open>Sequencing of steps that may raise: the first exception ends the block.\<close>

definition and_then :: "'e + 'a \<Rightarrow> ('a \<Rightarrow> 'e + 'b) \<Rightarrow> 'e + 'b" where
  "and_then m f = (case m of Inl e \<Rightarrow> Inl e | Inr x \<Rightarrow> f x)"

section \<open>The response normalizer\<close>

text \<open>
  The same statements clean the profile response and the verdict response: trim, drop
  a leading and a trailing fence, cut to the span from the first \<open>{\<close> to the last
  \<open>}\<close>, trim again.
\<close>

definition strip_fences :: "string \<Rightarrow> string" where
  "strip_fences s =
     (let s1 = (if startswith s ''```json'' then slice s (Some 7) None
                else if startswith s ''```'' then slice s (Some 3) None
                else s)
      in if endswith s1 ''```'' then slice s1 None (Some (- 3)) else s1)"

definition slice_braces :: "string \<Rightarrow> string" where
  "slice_braces s =
     (let start_idx = str_find s ''{'';
          end_idx = str_rfind s ''}''
      in if start_idx \<noteq> - 1 \<and> end_idx \<noteq> - 1 \<and> end_idx > start_idx
         then slice s (Some start_idx) (Some (end_idx + 1))
         else s)"

definition normalize :: "string \<Rightarrow> string" where
  "normalize raw = str_strip (slice_braces (strip_fences (str_strip raw)))"

section \<open>Regular expressions\<close>

text \<open>
  The two patterns of the matcher use literals, character classes, greedy stars over
  a class, sequence and alternation. \<open>rx_match r s\<close> lists what is left of \<open>s\<close> after
  each way \<open>r\<close> matches a prefix of it, in the order the backtracking engine tries
  them: a star takes as much as it can first, an alternation its left branch first.
  \<open>re_search\<close> is \<open>re.search(r, s)\<close> followed by \<open>.group(0)\<close>: the first match from the
  leftmost position that has one.
\<close>

datatype regex =
    Eps
  | Chr "char \<Rightarrow> bool"
  | Star "char \<Rightarrow> bool"
  | Seq regex regex
  | Alt regex regex

primrec rx_match :: "regex \<Rightarrow> string \<Rightarrow> string list" where
  "rx_match Eps s = [s]"
| "rx_match (Chr p) s = (case s of [] \<Rightarrow> [] | c # cs \<Rightarrow> if p c then [cs] else [])"
| "rx_match (Star p) s = map (\<lambda>n. drop n s) (rev [0..<Suc (length (takeWhile p s))])"
| "rx_match (Seq a b) s = concat (map (rx_match b) (rx_match a s))"
| "rx_match (Alt a b) s = rx_match a s @ rx_match b s"

fun re_search :: "regex \<Rightarrow> string \<Rightarrow> string option" where
  "re_search r [] = (case rx_match r [] of [] \<Rightarrow> None | rest # _ \<Rightarrow> Some [])"
| "re_search r (c # cs) =
     (case rx_match r (c # cs) of
        [] \<Rightarrow> re_search r cs
      | rest # _ \<Rightarrow> Some (take (Suc (length cs) - length rest) (c # cs)))"

text \<open>A literal string, and the same under \<open>re.IGNORECASE\<close>.\<close>

primrec lit_ci :: "string \<Rightarrow> regex" where
  "lit_ci [] = Eps"
| "lit_ci (c # cs) = Seq (Chr (\<lambda>x. lower_char x = lower_char c)) (lit_ci cs)"

definition not_brace :: "char \<Rightarrow> bool" where
  "not_brace c = (c \<noteq> CHR ''{'' \<and> c \<noteq> CHR ''}'')"

text \<open>The pattern \<^verbatim>\<open>\{[\s\S]*\}\<close> of the profile path.\<close>

definition object_rx :: regex where
  "object_rx =
     Seq (Chr (\<lambda>c. c = CHR ''{''))
       (Seq (Star (\<lambda>c. isspace c \<or> \<not> isspace c)) (Chr (\<lambda>c. c = CHR ''}'')))"

text \<open>
  The pattern \<^verbatim>\<open>\{[^\{\}]*"is_match"\s*:\s*(true|false)[^\{\}]*\}\<close> of the verdict
  path, compiled with \<open>re.IGNORECASE\<close>.
\<close>

definition is_match_body :: regex where
  \<open>is_match_body =
     Seq (Star not_brace)
       (Seq (lit_ci ''"is_match"'')
         (Seq (Star isspace)
           (Seq (Chr (\<lambda>c. c = CHR '':''))
             (Seq (Star isspace)
               (Seq (Alt (lit_ci ''true'') (lit_ci ''false'')) (Star not_brace))))))\<close>

definition is_match_rx :: regex where
  "is_match_rx =
     Seq (Chr (\<lambda>c. c = CHR ''{'')) (Seq is_match_body (Chr (\<lambda>c. c = CHR ''}'')))"

section \<open>Profile extraction and its fallback\<close>

definition tech_keywords :: "string list" where
  "tech_keywords =
     [''Python'', ''JavaScript'', ''TypeScript'', ''Java'', ''C#'', ''C++'', ''Go'', ''Ruby'',
      ''PHP'', ''Swift'',
      ''React'', ''Angular'', ''Vue'', ''Node.js'', ''Express'', ''Django'', ''Flask'',
      ''Spring'', ''ASP.NET'',
      ''HTML'', ''CSS'', ''SASS'', ''LESS'', ''Bootstrap'', ''Tailwind'', ''Material UI'',
      ''AWS'', ''Azure'', ''GCP'', ''Firebase'', ''Heroku'', ''Netlify'', ''Vercel'',
      ''Docker'', ''Kubernetes'', ''CI/CD'', ''Jenkins'', ''GitHub Actions'', ''GitLab CI'',
      ''SQL'', ''MySQL'', ''PostgreSQL'', ''MongoDB'', ''DynamoDB'', ''Redis'',
      ''Elasticsearch'',
      ''REST API'', ''GraphQL'', ''WebSockets'', ''gRPC'',
      ''Git'', ''GitHub'', ''GitLab'', ''Bitbucket'',
      ''TensorFlow'', ''PyTorch'', ''Scikit-learn'', ''Pandas'', ''NumPy'',
      ''Agile'', ''Scrum'', ''Kanban'', ''Jira'', ''Confluence'']"

text \<open>The loop \<open>for keyword in tech_keywords: if keyword.lower() in resume.lower()\<close>.\<close>

definition scan_keywords :: "string \<Rightarrow> string list" where
  "scan_keywords resume =
     filter (\<lambda>keyword. str_in (str_lower keyword) (str_lower resume)) tech_keywords"

text \<open>The record built when the profile response cannot be parsed.\<close>

definition fallback_profile :: "string \<Rightarrow> json" where
  "fallback_profile resume =
     (let found = scan_keywords resume;
          extracted_skills = (if found = [] then [''Unable to parse skills''] else found)
      in JObj
           [(''ExplicitSkills'', JArr (map JStr extracted_skills)),
            (''InferredSkills'',
               JArr (map JStr [''Git'', ''GitHub'', ''CI/CD'', ''Agile'', ''REST APIs''])),
            (''Experience'', JArr [JStr ''Unable to parse experience'']),
            (''Education'', JArr [JStr ''Unable to parse education'']),
            (''YearsOfExperience'', JStr ''Unknown''),
            (''ProjectTypes'', JArr [JStr ''Software Development''])])"

text \<open>
  Python truth value and \<open>len\<close> of a parsed value; \<open>len\<close> of a number, a boolean or
  \<open>None\<close> raises \<open>TypeError\<close>.
\<close>

fun truthy :: "json \<Rightarrow> bool" where
  "truthy JNull = False"
| "truthy (JBool b) = b"
| "truthy (JInt n) = (n \<noteq> 0)"
| "truthy (JFloat x) = (x \<noteq> Finite 0)"
| "truthy (JStr s) = (s \<noteq> [])"
| "truthy (JArr xs) = (xs \<noteq> [])"
| "truthy (JObj kvs) = (kvs \<noteq> [])"

fun py_len :: "json \<Rightarrow> py_exception + nat" where
  "py_len (JStr s) = Inr (length s)"
| "py_len (JArr xs) = Inr (length xs)"
| "py_len (JObj kvs) = Inr (length kvs)"
| "py_len v = Inl (OtherException ''TypeError: object has no len()'')"

text \<open>
  \<open>parsed_json.get(key)\<close> raises \<open>AttributeError\<close> unless \<open>parsed_json\<close> is a dict;
  \<open>parsed_json[key] = value\<close> replaces a value in place and appends a new key.
\<close>

fun dict_get :: "json \<Rightarrow> string \<Rightarrow> py_exception + json option" where
  "dict_get (JObj kvs) key = Inr (map_of kvs key)"
| "dict_get v key = Inl (OtherException ''AttributeError: object has no attribute get'')"

fun dict_set :: "json \<Rightarrow> string \<Rightarrow> json \<Rightarrow> json" where
  "dict_set (JObj kvs) key v = JObj (AList.update key v kvs)"
| "dict_set d key v = d"

text \<open>
  The test \<open>not parsed_json.get(key) or len(parsed_json.get(key, [])) == 0\<close>.
\<close>

definition field_is_empty :: "json \<Rightarrow> string \<Rightarrow> py_exception + bool" where
  "field_is_empty parsed_json key =
     and_then (dict_get parsed_json key)
       (\<lambda>found. case found of
            None \<Rightarrow> Inr True
          | Some v \<Rightarrow>
              if \<not> truthy v then Inr True
              else and_then (py_len v) (\<lambda>n. Inr (n = 0)))"

text \<open>
  The checks that follow a successful parse. They change \<open>parsed_json\<close> only; the
  text \<open>resume_analysis\<close> was serialized before them.
\<close>

definition repair_fields :: "string \<Rightarrow> json \<Rightarrow> py_exception + json" where
  "repair_fields resume parsed_json =
     and_then (field_is_empty parsed_json ''ExplicitSkills'')
       (\<lambda>no_skills.
          let extracted_skills = scan_keywords resume;
              repaired =
                (if no_skills \<and> extracted_skills \<noteq> []
                 then dict_set parsed_json ''ExplicitSkills'' (JArr (map JStr extracted_skills))
                 else parsed_json)
          in and_then (field_is_empty repaired ''Experience'') (\<lambda>no_experience. Inr repaired))"

text \<open>The two parsing attempts of the profile path, on the cleaned response.\<close>

definition parse_profile :: "externals \<Rightarrow> string \<Rightarrow> py_exception + json" where
  "parse_profile ext resume_analysis =
     (case loads ext resume_analysis of
        Inr parsed_json \<Rightarrow> Inr parsed_json
      | Inl (JSONDecodeError m) \<Rightarrow>
          (case re_search object_rx resume_analysis of
             Some json_str \<Rightarrow> loads ext json_str
           | None \<Rightarrow> Inl (JSONDecodeError ''No JSON object found: line 1 column 1 (char 0)''))
      | Inl (OtherException m) \<Rightarrow> Inl (OtherException m))"

text \<open>
  From the raw profile response to the text \<open>resume_analysis\<close> that goes into the
  match prompt. A \<open>JSONDecodeError\<close> is caught here; any other exception leaves the
  block.
\<close>

definition analyse_response :: "externals \<Rightarrow> string \<Rightarrow> string \<Rightarrow> py_exception + string" where
  "analyse_response ext resume raw =
     (case and_then (parse_profile ext (normalize (str_strip raw)))
             (\<lambda>parsed_json.
                let resume_analysis = dumps ext parsed_json
                in and_then (repair_fields resume parsed_json) (\<lambda>repaired. Inr resume_analysis))
      of
        Inr resume_analysis \<Rightarrow> Inr resume_analysis
      | Inl (JSONDecodeError m) \<Rightarrow> Inr (dumps ext (fallback_profile resume))
      | Inl (OtherException m) \<Rightarrow> Inl (OtherException m))"

text \<open>The first \<open>try\<close> block: the prompt for the match call, or the exception.\<close>

definition profile_stage :: "externals \<Rightarrow> string \<Rightarrow> string \<Rightarrow> py_exception + string" where
  "profile_stage ext resume job_posting =
     (let highlighted_resume = highlight skills_section_markers resume
      in and_then (create ext [(''user'', extract_prompt highlighted_resume)])
           (\<lambda>raw. and_then (analyse_response ext resume raw)
              (\<lambda>resume_analysis. Inr (match_prompt resume_analysis job_posting))))"

section \<open>Verdict extraction and its fallback\<close>

text \<open>The verdict built from keywords when no parse succeeds.\<close>

definition keyword_verdict :: "string \<Rightarrow> json" where
  "keyword_verdict content =
     (let is_match =
            (str_in ''match'' (str_lower content)
             \<and> (str_in ''good fit'' (str_lower content)
                \<or> str_in ''strong match'' (str_lower content)));
          reason = ''Could not parse structured response. ''
                   @ (if is_match then ''Based on keywords, this appears to be a match.''
                      else ''Based on keywords, this does not appear to be a match.'')
      in JObj
           [(''is_match'', JBool is_match),
            (''match_percentage'', JInt (if is_match then 75 else 30)),
            (''matching_skills'', JArr []),
            (''missing_skills'', JArr []),
            (''reason'', JStr reason)])"

text \<open>
  The second attempt of the verdict path, on the response as received. Its \<open>try\<close>
  swallows every exception.
\<close>

definition regex_verdict :: "externals \<Rightarrow> string \<Rightarrow> json option" where
  "regex_verdict ext content =
     (case re_search is_match_rx content of
        None \<Rightarrow> None
      | Some potential_json \<Rightarrow>
          (case loads ext potential_json of Inr result \<Rightarrow> Some result | Inl e \<Rightarrow> None))"

text \<open>From the response of the match call to the value \<open>evaluate_match\<close> returns.\<close>

definition parse_verdict :: "externals \<Rightarrow> string \<Rightarrow> py_exception + json" where
  "parse_verdict ext content =
     (case loads ext (normalize content) of
        Inr result \<Rightarrow> Inr result
      | Inl (JSONDecodeError m) \<Rightarrow>
          (case regex_verdict ext content of
             Some result \<Rightarrow> Inr result
           | None \<Rightarrow> Inr (keyword_verdict content))
      | Inl (OtherException m) \<Rightarrow> Inl (OtherException m))"

text \<open>The second \<open>try\<close> block.\<close>

definition match_messages :: "string \<Rightarrow> (string \<times> string) list" where
  "match_messages prompt = [(''system'', system_message), (''user'', prompt)]"

definition verdict_stage :: "externals \<Rightarrow> string \<Rightarrow> py_exception + json" where
  "verdict_stage ext prompt =
     and_then (create ext (match_messages prompt)) (parse_verdict ext)"

definition error_verdict :: "py_exception \<Rightarrow> json" where
  "error_verdict e =
     JObj [(''is_match'', JBool False),
           (''reason'', JStr (''Error evaluating match: '' @ exception_str e))]"

section \<open>The match evaluator\<close>

text \<open>
  The prompt of the match call: the one the first \<open>try\<close> block builds, or the simpler
  one of its \<open>except Exception\<close> handler.
\<close>

definition chosen_prompt :: "externals \<Rightarrow> string \<Rightarrow> string \<Rightarrow> string" where
  "chosen_prompt ext resume job_posting =
     (case profile_stage ext resume job_posting of
        Inr prompt \<Rightarrow> prompt
      | Inl e \<Rightarrow> simple_prompt resume job_posting)"

text \<open>
  \<open>JobMatcher.evaluate_match\<close>. \<open>Inl\<close> would be an exception that reaches the caller.
\<close>

definition evaluate_match :: "externals \<Rightarrow> string \<Rightarrow> string \<Rightarrow> py_exception + json" where
  "evaluate_match ext resume0 job_posting0 =
     (let bounded = budget_inputs resume0 job_posting0;
          resume = fst bounded;
          job_posting = snd bounded;
          prompt = chosen_prompt ext resume job_posting
      in case verdict_stage ext prompt of
           Inr result \<Rightarrow> Inr result
         | Inl e \<Rightarrow> Inr (error_verdict e))"

text \<open>
  What the match call of \<open>evaluate_match\<close> gives on two inputs: the response text or
  the exception.
\<close>

definition match_response :: "externals \<Rightarrow> string \<Rightarrow> string \<Rightarrow> py_exception + string" where
  "match_response ext resume0 job_posting0 =
     (let bounded = budget_inputs resume0 job_posting0
      in create ext (match_messages (chosen_prompt ext (fst bounded) (snd bounded))))"

text \<open>Reading a key of a returned record.\<close>

fun field :: "json \<Rightarrow> string \<Rightarrow> json option" where
  "field (JObj kvs) key = map_of kvs key"
| "field v key = None"

section \<open>Sample collaborators\<close>

text \<open>
  Generators for the worked instances: one answers every request with a sentence of
  praise, one with a sentence that commits to nothing, one raises on every request;
  their parser rejects every text it is given, as \<open>json.loads\<close> rejects these
  sentences. The last one answers with a flat object followed by more text and a
  second object; its parser accepts the flat object alone and rejects every other
  text with the error \<open>json.loads\<close> gives for the whole answer. One more fails with
  a connection error on the request of a single message, which is the extraction
  request, and answers the request of the match call with a flat object that its
  parser accepts.
\<close>

definition prose_service :: externals where
  "prose_service =
     \<lparr>create = (\<lambda>messages. Inr ''This candidate is a strong match for the role.''),
      loads = (\<lambda>s. Inl (JSONDecodeError ''Expecting value: line 1 column 1 (char 0)'')),
      dumps = (\<lambda>v. ''{}'')\<rparr>"

definition vague_service :: externals where
  "vague_service =
     \<lparr>create = (\<lambda>messages. Inr ''It is hard to say.''),
      loads = (\<lambda>s. Inl (JSONDecodeError ''Expecting value: line 1 column 1 (char 0)'')),
      dumps = (\<lambda>v. ''{}'')\<rparr>"

definition failing_service :: externals where
  "failing_service =
     \<lparr>create = (\<lambda>messages. Inl (OtherException ''Connection error.'')),
      loads = (\<lambda>s. Inl (JSONDecodeError ''Expecting value: line 1 column 1 (char 0)'')),
      dumps = (\<lambda>v. ''{}'')\<rparr>"

definition flat_object_service :: externals where
  \<open>flat_object_service =
     \<lparr>create = (\<lambda>messages. Inr ''{"is_match": true} and {"x": 1}''),
      loads = (\<lambda>s. if s = ''{"is_match": true}''
                    then Inr (JObj [(''is_match'', JBool True)])
                    else Inl (JSONDecodeError ''Extra data: line 1 column 20 (char 19)'')),
      dumps = (\<lambda>v. ''{}'')\<rparr>\<close>

definition interrupted_service :: externals where
  \<open>interrupted_service =
     \<lparr>create = (\<lambda>messages. if length messages = 1
                             then Inl (OtherException ''Connection error.'')
                             else Inr ''{"is_match": true}''),
      loads = (\<lambda>s. if s = ''{"is_match": true}''
                    then Inr (JObj [(''is_match'', JBool True)])
                    else Inl (JSONDecodeError ''Expecting value: line 1 column 1 (char 0)'')),
      dumps = (\<lambda>v. ''{}'')\<rparr>\<close>

section \<open>Notions for stating the tagging pass\<close>

text \<open>
  The patterns of one marker in the order the loop uses them, a text in which none of
  them occurs, and one \<open>replace\<close> call of the loop.
\<close>

definition marker_patterns :: "string \<Rightarrow> string list" where
  "marker_patterns marker = [marker @ '':'', str_title marker @ '':'', str_upper marker @ '':'']"

definition no_marker_occurs :: "string list \<Rightarrow> string \<Rightarrow> bool" where
  "no_marker_occurs markers resume =
     (\<forall>marker \<in> set markers. \<forall>pattern \<in> set (marker_patterns marker). \<not> sublist pattern resume)"

definition tag_step :: "string \<Rightarrow> string \<Rightarrow> string" where
  "tag_step h pattern = str_replace h pattern (section_tag @ pattern)"

section \<open>Notions for stating the second parse attempts\<close>

text \<open>
  The span the specification describes for the second attempt, written from its
  words: the text from the first opening brace to the last closing brace after it,
  absent when there is no such pair. Then two notions for reasoning about matches: a
  pattern all of whose character classes lie within a given class, and the matches
  of a closing brace at every position of a text.
\<close>

definition spec_widest_span :: "string \<Rightarrow> string option" where
  "spec_widest_span s =
     (let from_open = dropWhile (\<lambda>c. c \<noteq> CHR ''{'') s;
          widest = rev (dropWhile (\<lambda>c. c \<noteq> CHR ''}'') (rev from_open))
      in if widest = [] then None else Some widest)"

primrec rx_within :: "(char \<Rightarrow> bool) \<Rightarrow> regex \<Rightarrow> bool" where
  "rx_within P Eps = True"
| "rx_within P (Chr p) = (\<forall>c. p c \<longrightarrow> P c)"
| "rx_within P (Star p) = (\<forall>c. p c \<longrightarrow> P c)"
| "rx_within P (Seq a b) = (rx_within P a \<and> rx_within P b)"
| "rx_within P (Alt a b) = (rx_within P a \<and> rx_within P b)"

definition closing_matches :: "string \<Rightarrow> string list" where
  "closing_matches cs = concat (map (rx_match (Chr (\<lambda>c. c = CHR ''}''))) (suffixes cs))"

text \<open>
  The words a pattern matches, as a set: this is the meaning of a pattern that does
  not depend on the order in which the engine tries the alternatives.
\<close>

primrec rx_lang :: "regex \<Rightarrow> string set" where
  "rx_lang Eps = {[]}"
| "rx_lang (Chr p) = {[c] | c. p c}"
| "rx_lang (Star p) = {w. \<forall>c \<in> set w. p c}"
| "rx_lang (Seq a b) = {u @ v | u v. u \<in> rx_lang a \<and> v \<in> rx_lang b}"
| "rx_lang (Alt a b) = rx_lang a \<union> rx_lang b"

text \<open>
  The object the second attempt of the verdict path is after, written from the
  pattern's reading: an opening brace, text without braces, the key \<open>"is_match"\<close> in any
  letter case, whitespace, a colon, whitespace, the value true or false in any letter
  case, text without braces, a closing brace. Then the leftmost such object of a
  text: no occurrence of such an object starts before it.
\<close>

definition is_match_object :: "string \<Rightarrow> bool" where
  \<open>is_match_object m \<longleftrightarrow>
     (\<exists>before key gap1 gap2 val after.
        m = ''{'' @ before @ key @ gap1 @ '':'' @ gap2 @ val @ after @ ''}''
      \<and> (\<forall>c \<in> set before. c \<noteq> CHR ''{'' \<and> c \<noteq> CHR ''}'')
      \<and> map lower_char key = ''"is_match"''
      \<and> (\<forall>c \<in> set gap1. isspace c)
      \<and> (\<forall>c \<in> set gap2. isspace c)
      \<and> (map lower_char val = ''true'' \<or> map lower_char val = ''false'')
      \<and> (\<forall>c \<in> set after. c \<noteq> CHR ''{'' \<and> c \<noteq> CHR ''}''))\<close>

definition leftmost_is_match_object :: "string \<Rightarrow> string \<Rightarrow> bool" where
  "leftmost_is_match_object s m \<longleftrightarrow>
     (\<exists>pre post.
        s = pre @ m @ post \<and> is_match_object m
      \<and> (\<forall>pre' m' post'. s = pre' @ m' @ post' \<and> is_match_object m' \<longrightarrow> length pre \<le> length pre'))"

section \<open>Properties of the budgeter\<close>

text \<open>
  Claim C9. When the combined token estimate of the two texts, \<open>len(text) // 4\<close> each,
  is at most the ceiling of 6000 tokens, the budgeting step returns both texts
  unchanged.
\<close>

theorem budget_identity_under_ceiling:
  assumes "estimate_tokens resume + estimate_tokens job_posting \<le> max_total_tokens"
  shows "budget_inputs resume job_posting = (resume, job_posting)"
  using assms by (simp add: budget_inputs_def Let_def)

theorem budget_identity_under_ceiling_witness:
  "estimate_tokens ''SKILLS: Python, React'' + estimate_tokens ''Python, SQL'' \<le> max_total_tokens
   \<and> budget_inputs ''SKILLS: Python, React'' ''Python, SQL''
       = (''SKILLS: Python, React'', ''Python, SQL'')"
proof -
  have h: "estimate_tokens ''SKILLS: Python, React'' + estimate_tokens ''Python, SQL''
           \<le> max_total_tokens"
    by (simp add: estimate_tokens_def max_total_tokens_def)
  show ?thesis
    using h budget_identity_under_ceiling [OF h] by simp
qed

subsection \<open>Rounding error of the double operations\<close>

lemma bit_length_upper: "n < 2 ^ bit_length n"
proof (induction n rule: bit_length.induct)
  case (1 n)
  show ?case
  proof (cases "n = 0")
    case True then show ?thesis by (simp add: bit_length.simps)
  next
    case False
    with 1 have "n div 2 < 2 ^ bit_length (n div 2)" by simp
    then have "n < 2 * 2 ^ bit_length (n div 2)" by linarith
    with False show ?thesis by (subst bit_length.simps) simp
  qed
qed

lemma bit_length_lower: "0 < n \<Longrightarrow> 2 ^ bit_length n \<le> 2 * n"
proof (induction n rule: bit_length.induct)
  case (1 n)
  show ?case
  proof (cases "n div 2 = 0")
    case True
    with 1(2) have "n = 1" by linarith
    then show ?thesis by (simp add: bit_length.simps)
  next
    case False
    with 1 have "2 ^ bit_length (n div 2) \<le> 2 * (n div 2)" by simp
    then have "2 * 2 ^ bit_length (n div 2) \<le> 2 * n" by linarith
    with 1(2) show ?thesis by (subst bit_length.simps) simp
  qed
qed

lemma round_half_even_le:
  assumes d: "0 < den"
  shows "2 * den * round_half_even num den \<le> 2 * num + den"
proof -
  define q where "q = num div den"
  define r where "r = num mod den"
  have e': "num = den * q + r" by (simp add: q_def r_def)
  have a: "2 * den * q \<le> 2 * num + den" using e' by (simp add: algebra_simps)
  have b: "den \<le> 2 * r \<Longrightarrow> 2 * den * (q + 1) \<le> 2 * num + den"
    using e' by (simp add: algebra_simps)
  show ?thesis
    unfolding round_half_even_def Let_def q_def[symmetric] r_def[symmetric]
    using a b by (auto simp: not_less)
qed

lemma pow_nat_split: "(2::real) ^ nat (- k) / 2 ^ nat k = 2 powi (- k)"
proof (cases "0 \<le> k")
  case True
  then show ?thesis by (simp add: power_int_minus power_int_def field_simps)
next
  case False
  then show ?thesis by (simp add: power_int_def)
qed

lemma scaled_ratio:
  assumes "0 < q"
  shows "real (p * 2 ^ nat (- k)) / real (q * 2 ^ nat k) = real p / real q * 2 powi (- k)"
proof -
  have "real (p * 2 ^ nat (- k)) / real (q * 2 ^ nat k)
        = real p / real q * ((2::real) ^ nat (- k) / 2 ^ nat k)"
    by simp
  then show ?thesis by (simp only: pow_nat_split)
qed

lemma ratio_lower:
  assumes p: "0 < p" and q: "0 < q"
  shows "2 powi (int (bit_length p) - int (bit_length q) - 1) \<le> real p / real q"
proof -
  have a: "(2::real) ^ bit_length p \<le> 2 * real p"
    using bit_length_lower [OF p] by (metis of_nat_le_iff of_nat_mult of_nat_numeral of_nat_power)
  have b: "real q \<le> 2 ^ bit_length q"
    using bit_length_upper [of q] by (metis less_imp_le of_nat_le_iff of_nat_numeral of_nat_power)
  have c: "(2::real) ^ bit_length p / 2 \<le> real p" using a by simp
  have "2 powi (int (bit_length p) - int (bit_length q) - 1)
        = ((2::real) ^ bit_length p / 2) / 2 ^ bit_length q"
    by (simp add: power_int_diff)
  also have "\<dots> \<le> real p / 2 ^ bit_length q"
    using c by (rule divide_right_mono) simp
  also have "\<dots> \<le> real p / real q"
    using b q by (simp add: frac_le)
  finally show ?thesis .
qed


lemma round_half_even_real:
  assumes "0 < den"
  shows "real (round_half_even num den) \<le> real num / real den + 1 / 2"
proof -
  have "real (2 * den * round_half_even num den) \<le> real (2 * num + den)"
    using round_half_even_le [OF assms] of_nat_le_iff by blast
  then have "2 * real den * real (round_half_even num den) \<le> 2 * real num + real den"
    by simp
  then show ?thesis using assms by (simp add: field_simps)
qed

lemma to_double_le:
  assumes q: "0 < q"
  shows "float_val (to_double p q e) \<le> real p / real q * 2 powi e * (1 + 1 / 2 ^ 53)"
proof (cases "p = 0")
  case True
  have "round_half_even 0 d = 0" for d by (simp add: round_half_even_def)
  with True show ?thesis by (simp add: to_double_def float_val_def Let_def)
next
  case False
  then have p: "0 < p" by simp
  define x where "x = real p / real q"
  define k where "k = int (bit_length p) - int (bit_length q) - 53"
  define k' where "k' = (if p * 2 ^ nat (- k) < 2 ^ 53 * (q * 2 ^ nat k) then k else k + 1)"
  define N where "N = p * 2 ^ nat (- k')"
  define D where "D = q * 2 ^ nat k'"
  have D: "0 < D" using q by (simp add: D_def)
  have td: "to_double p q e = (round_half_even N D, e + k')"
    by (simp add: to_double_def Let_def k_def k'_def N_def D_def)
  have ND: "real N / real D = x * 2 powi (- k')"
    unfolding N_def D_def x_def by (rule scaled_ratio [OF q])
  have x0: "0 < x" using p q by (simp add: x_def)
  have low: "2 ^ 52 \<le> x * 2 powi (- k')"
  proof (cases "p * 2 ^ nat (- k) < 2 ^ 53 * (q * 2 ^ nat k)")
    case True
    then have kk: "k' = k" by (simp add: k'_def)
    have "2 powi (k + 52) \<le> x"
      using ratio_lower [OF p q] by (simp add: x_def k_def)
    then have "2 powi (k + 52) * 2 powi (- k) \<le> x * 2 powi (- k)"
      by (simp add: mult_right_mono)
    moreover have "(2::real) powi (k + 52) * 2 powi (- k) = 2 ^ 52"
      by (simp add: power_int_add power_int_minus)
    ultimately show ?thesis by (simp add: kk)
  next
    case False
    then have kk: "k' = k + 1" by (simp add: k'_def)
    from False have "2 ^ 53 * (q * 2 ^ nat k) \<le> p * 2 ^ nat (- k)" by simp
    then have "real (2 ^ 53 * (q * 2 ^ nat k)) \<le> real (p * 2 ^ nat (- k))"
      using of_nat_le_iff by blast
    moreover have "0 < real (q * 2 ^ nat k)" using q by simp
    ultimately have "2 ^ 53 \<le> real (p * 2 ^ nat (- k)) / real (q * 2 ^ nat k)"
      by (simp add: pos_le_divide_eq)
    then have a53: "2 ^ 53 \<le> x * 2 powi (- k)"
      unfolding x_def by (simp only: scaled_ratio [OF q])
    define z where "z = x * 2 powi (- k)"
    have e: "- (k + 1) = - k - 1" by simp
    have "(2::real) powi (- (k + 1)) = 2 powi (- k) / 2"
      unfolding e by (subst power_int_diff) simp_all
    then have "x * 2 powi (- k') = z / 2"
      by (simp only: kk z_def times_divide_eq_right)
    moreover have "2 ^ 53 \<le> z" using a53 by (simp only: z_def)
    ultimately show ?thesis by simp
  qed
  define y where "y = x * 2 powi (- k')"
  have m: "real (round_half_even N D) \<le> y + 1 / 2"
    using round_half_even_real [OF D, of N] by (simp add: ND y_def)
  have "1 / 2 \<le> y / 2 ^ 53" using low by (simp add: y_def field_simps)
  with m have m': "real (round_half_even N D) \<le> y * (1 + 1 / 2 ^ 53)"
    by (simp add: algebra_simps)
  have "float_val (to_double p q e) = real (round_half_even N D) * 2 powi (e + k')"
    by (simp add: td float_val_def)
  also have "\<dots> \<le> y * (1 + 1 / 2 ^ 53) * 2 powi (e + k')"
    using m' by (rule mult_right_mono) simp
  also have "\<dots> = x * 2 powi e * (1 + 1 / 2 ^ 53) * (2 powi (- k') * 2 powi k')"
    by (simp add: y_def power_int_add)
  also have "\<dots> = x * 2 powi e * (1 + 1 / 2 ^ 53)"
    by (simp add: power_int_minus)
  finally show ?thesis by (simp add: x_def)
qed


lemma float_val_nonneg: "0 \<le> float_val x"
  by (simp add: float_val_def)

lemma float_mul_le: "float_val (float_mul a b) \<le> float_val a * float_val b * (1 + 1 / 2 ^ 53)"
proof -
  have "float_val (float_mul a b)
        \<le> real (fst a * fst b) / real 1 * 2 powi (snd a + snd b) * (1 + 1 / 2 ^ 53)"
    unfolding float_mul_def by (rule to_double_le) simp
  also have "real (fst a * fst b) / real 1 * 2 powi (snd a + snd b) = float_val a * float_val b"
    by (simp add: float_val_def power_int_add)
  finally show ?thesis .
qed

lemma int_of_float_le: "real (int_of_float x) \<le> float_val x"
proof (cases "0 \<le> snd x")
  case True
  then show ?thesis by (simp add: int_of_float_def float_val_def power_int_def)
next
  case False
  have "real (fst x div 2 ^ nat (- snd x)) \<le> real (fst x) / real (2 ^ nat (- snd x))"
    by (rule of_nat_div_le_of_nat)
  with False show ?thesis
    by (simp add: int_of_float_def float_val_def power_int_def field_simps)
qed

lemma max_chars_of_le:
  assumes s: "0 < s"
  shows "real (max_chars_of text s)
         \<le> real (length text) * (6000 / real s) * ((1 + 1 / 2 ^ 53) * (1 + 1 / 2 ^ 53) * (1 + 1 / 2 ^ 53))"
proof -
  define u where "u = (1 + 1 / 2 ^ 53 :: real)"
  define a where "a = float_of_int (length text)"
  define b where "b = int_truediv max_total_tokens s"
  have u: "0 \<le> u" by (simp add: u_def)
  have a: "float_val a \<le> real (length text) * u"
    using to_double_le [of 1 "length text" 0] by (simp add: a_def float_of_int_def u_def)
  have b: "float_val b \<le> 6000 / real s * u"
    using to_double_le [OF s, of 6000 0] by (simp add: b_def int_truediv_def u_def max_total_tokens_def)
  have "float_val a * float_val b \<le> (real (length text) * u) * (6000 / real s * u)"
    using a b by (intro mult_mono) (simp_all add: float_val_nonneg u)
  then have "float_val a * float_val b * u \<le> (real (length text) * u) * (6000 / real s * u) * u"
    using u by (rule mult_right_mono)
  moreover have "float_val (float_mul a b) \<le> float_val a * float_val b * u"
    unfolding u_def by (rule float_mul_le)
  moreover have "real (max_chars_of text s) \<le> float_val (float_mul a b)"
    unfolding max_chars_of_def Let_def a_def b_def by (rule int_of_float_le)
  ultimately have "real (max_chars_of text s) \<le> (real (length text) * u) * (6000 / real s * u) * u"
    by linarith
  then show ?thesis by (simp add: u_def mult_ac)
qed

subsection \<open>Inputs over the ceiling\<close>

lemma rounding_slack:
  "(24000 + 36000 / 6001) * ((1 + 1 / 2 ^ 53) * (1 + 1 / 2 ^ 53) * (1 + 1 / 2 ^ 53)) < (24006::real)"
  by simp

lemma shrink_slack:
  "6000 / 6001 * ((1 + 1 / 2 ^ 53) * (1 + 1 / 2 ^ 53) * (1 + 1 / 2 ^ 53)) < (1::real)"
  by simp

lemma targets_sum:
  assumes over: "max_total_tokens < length r div 4 + length j div 4"
  shows "max_chars_of r (length r div 4 + length j div 4)
         + max_chars_of j (length r div 4 + length j div 4) \<le> 24005"
proof -
  define s where "s = length r div 4 + length j div 4"
  define U where "U = ((1 + 1 / 2 ^ 53) * (1 + 1 / 2 ^ 53) * (1 + 1 / 2 ^ 53) :: real)"
  have s: "6001 \<le> s" using over by (simp add: s_def max_total_tokens_def)
  then have s0: "0 < s" by simp
  have U: "0 \<le> U" by (simp add: U_def)
  have len: "length r + length j \<le> 4 * s + 6" unfolding s_def by arith
  then have "real (length r + length j) \<le> real (4 * s + 6)" using of_nat_le_iff by blast
  then have len': "real (length r) + real (length j) \<le> 4 * real s + 6" by simp
  have "real (max_chars_of r s) + real (max_chars_of j s)
        \<le> real (length r) * (6000 / real s * U) + real (length j) * (6000 / real s * U)"
    using max_chars_of_le [OF s0, of r] max_chars_of_le [OF s0, of j]
    by (simp add: U_def mult.assoc)
  also have "\<dots> = (real (length r) + real (length j)) * (6000 / real s * U)"
    by (simp only: distrib_right)
  also have "\<dots> \<le> (4 * real s + 6) * (6000 / real s * U)"
    using len' U by (intro mult_right_mono) simp_all
  also have "\<dots> = (24000 + 36000 / real s) * U"
    using s0 by (simp add: field_simps)
  also have "\<dots> \<le> (24000 + 36000 / 6001) * U"
  proof -
    have "36000 / real s \<le> 36000 / 6001"
      using s by (intro divide_left_mono) simp_all
    then show ?thesis using U by (intro mult_right_mono) simp_all
  qed
  also have "\<dots> < 24006" unfolding U_def by (rule rounding_slack)
  finally have "real (max_chars_of r s + max_chars_of j s) < real 24006" by simp
  then have "max_chars_of r s + max_chars_of j s < 24006" using of_nat_less_iff by blast
  then show ?thesis by (simp add: s_def)
qed

lemma target_below_length:
  assumes s: "6001 \<le> s" and t: "0 < max_chars_of text s"
  shows "max_chars_of text s < length text"
proof -
  define U where "U = ((1 + 1 / 2 ^ 53) * (1 + 1 / 2 ^ 53) * (1 + 1 / 2 ^ 53) :: real)"
  have s0: "0 < s" using s by simp
  have U: "0 \<le> U" by (simp add: U_def)
  have b: "real (max_chars_of text s) \<le> real (length text) * (6000 / real s * U)"
    using max_chars_of_le [OF s0, of "text"] by (simp add: U_def mult.assoc)
  have l: "0 < length text"
  proof (rule ccontr)
    assume "\<not> 0 < length text"
    with b have "real (max_chars_of text s) \<le> 0" by simp
    with t show False by simp
  qed
  have "6000 / real s \<le> 6000 / 6001" using s by (intro divide_left_mono) simp_all
  then have "6000 / real s * U \<le> 6000 / 6001 * U" using U by (intro mult_right_mono) simp_all
  also have "\<dots> < 1" unfolding U_def by (rule shrink_slack)
  finally have "real (length text) * (6000 / real s * U) < real (length text) * 1"
    using l by (intro mult_strict_left_mono) simp_all
  with b have "real (max_chars_of text s) < real (length text)" by simp
  then show ?thesis using of_nat_less_iff by blast
qed

lemma truncate_text_cut:
  assumes "2 \<le> t" and "t < length text"
  shows "truncate_text text (int t)
         = take (t div 2) text @ truncation_marker @ drop (length text - t div 2) text"
proof -
  have h: "int t div 2 = int (t div 2)" by simp
  have "0 < t div 2" "t div 2 \<le> length text" using assms by simp_all
  moreover have "nat (int (length text) - int (t div 2)) = length text - t div 2" by linarith
  ultimately show ?thesis using assms(2)
    unfolding truncate_text_def Let_def h slice_def clamp_index_def
    by (simp add: min_def max_def)
qed

lemma estimate_of_cut:
  assumes "0 < h" and "2 * h < length t"
  shows "4 * estimate_tokens (take h t @ truncation_marker @ drop (length t - h) t) \<le> 2 * h + 26"
proof -
  have "length (take h t @ truncation_marker @ drop (length t - h) t) = 2 * h + 27"
    using assms by (simp add: truncation_marker_def)
  then show ?thesis unfolding estimate_tokens_def by arith
qed

text \<open>
  Claim C1, as amended. When the combined estimate exceeds the ceiling and the target
  \<open>int(len(text) * reduction_factor)\<close> of each text is at least 2, each bounded text is
  the first \<open>h\<close> characters of the original, the placeholder marker, and the last \<open>h\<close>
  characters of the original, where \<open>h\<close> is half the target (rounded down), at least 1,
  and head and tail do not overlap. The two markers of 27 characters are not taken off
  the budget: the combined estimate of the bounded texts is at most the ceiling plus
  14 tokens.
\<close>

theorem budget_over_ceiling:
  assumes over: "max_total_tokens < estimate_tokens resume + estimate_tokens job_posting"
    and tr: "2 \<le> max_chars_of resume (estimate_tokens resume + estimate_tokens job_posting)"
    and tj: "2 \<le> max_chars_of job_posting (estimate_tokens resume + estimate_tokens job_posting)"
  shows "(let total = estimate_tokens resume + estimate_tokens job_posting;
              hr = max_chars_of resume total div 2;
              hj = max_chars_of job_posting total div 2;
              bounded = budget_inputs resume job_posting
          in 0 < hr \<and> 2 * hr < length resume \<and> 0 < hj \<and> 2 * hj < length job_posting
             \<and> fst bounded = take hr resume @ truncation_marker @ drop (length resume - hr) resume
             \<and> snd bounded
                 = take hj job_posting @ truncation_marker @ drop (length job_posting - hj) job_posting
             \<and> estimate_tokens (fst bounded) + estimate_tokens (snd bounded)
                 \<le> max_total_tokens + 14)"
proof -
  define total where "total = estimate_tokens resume + estimate_tokens job_posting"
  define tr' where "tr' = max_chars_of resume total"
  define tj' where "tj' = max_chars_of job_posting total"
  define hr where "hr = tr' div 2"
  define hj where "hj = tj' div 2"
  have s: "6001 \<le> total" using over by (simp add: total_def max_total_tokens_def)
  have r2: "2 \<le> tr'" and j2: "2 \<le> tj'" using tr tj by (simp_all add: tr'_def tj'_def total_def)
  have rl: "tr' < length resume"
    unfolding tr'_def using r2 by (intro target_below_length [OF s]) (simp add: tr'_def)
  have jl: "tj' < length job_posting"
    unfolding tj'_def using j2 by (intro target_below_length [OF s]) (simp add: tj'_def)
  have sum: "tr' + tj' \<le> 24005"
    using targets_sum [of resume job_posting] over
    by (simp add: tr'_def tj'_def total_def estimate_tokens_def)
  have hr: "0 < hr" "2 * hr < length resume" "2 * hr \<le> tr'" using r2 rl by (simp_all add: hr_def)
  have hj: "0 < hj" "2 * hj < length job_posting" "2 * hj \<le> tj'" using j2 jl by (simp_all add: hj_def)
  have b: "budget_inputs resume job_posting
           = (take hr resume @ truncation_marker @ drop (length resume - hr) resume,
              take hj job_posting @ truncation_marker @ drop (length job_posting - hj) job_posting)"
    using over truncate_text_cut [OF r2 rl] truncate_text_cut [OF j2 jl]
    by (simp add: budget_inputs_def Let_def total_def tr'_def tj'_def hr_def hj_def)
  have "4 * (estimate_tokens (fst (budget_inputs resume job_posting))
             + estimate_tokens (snd (budget_inputs resume job_posting))) \<le> 24057"
    using estimate_of_cut [OF hr(1,2)] estimate_of_cut [OF hj(1,2)] hr(3) hj(3) sum
    by (simp add: b)
  then have e: "estimate_tokens (fst (budget_inputs resume job_posting))
             + estimate_tokens (snd (budget_inputs resume job_posting)) \<le> max_total_tokens + 14"
    by (simp add: max_total_tokens_def)
  show ?thesis
    unfolding Let_def total_def[symmetric] tr'_def[symmetric] tj'_def[symmetric]
      hr_def[symmetric] hj_def[symmetric]
    using hr(1,2) hj(1,2) e by (simp add: b)
qed

lemma double_6000_6002: "int_truediv 6000 6002 = (9004197855455840, - 53)"
  by (simp add: int_truediv_def to_double_def bit_length.simps Let_def round_half_even_def)

lemma double_12004: "float_of_int 12004 = (6599268789911552, - 39)"
  by (simp add: float_of_int_def to_double_def bit_length.simps Let_def round_half_even_def)

lemma double_product_12004:
  "float_mul (6599268789911552, - 39) (9004197855455840, - 53) = (6597069766656000, - 39)"
  by (simp add: float_mul_def to_double_def bit_length.simps Let_def round_half_even_def)

lemma max_chars_12004:
  assumes "length t = 12004"
  shows "max_chars_of t 6002 = 12000"
  unfolding max_chars_of_def Let_def assms max_total_tokens_def
    double_6000_6002 double_12004 double_product_12004
  by (simp add: int_of_float_def)

text \<open>
  The claim as stated fails on two texts of 12004 characters: both are cut to
  6000 + 27 + 6000 characters, 3006 tokens each, 12 above the ceiling.
\<close>

theorem budget_over_ceiling_counterexample:
  "max_total_tokens
     < estimate_tokens (replicate 12004 CHR ''a'') + estimate_tokens (replicate 12004 CHR ''b'')
   \<and> estimate_tokens (fst (budget_inputs (replicate 12004 CHR ''a'') (replicate 12004 CHR ''b'')))
     + estimate_tokens (snd (budget_inputs (replicate 12004 CHR ''a'') (replicate 12004 CHR ''b'')))
     = max_total_tokens + 12"
proof -
  have t: "max_chars_of (replicate 12004 c) 6002 = 12000" for c
    by (rule max_chars_12004) simp
  have c: "truncate_text (replicate 12004 c) 12000
           = replicate 6000 c @ truncation_marker @ replicate 6000 c" for c
    using truncate_text_cut [of 12000 "replicate 12004 c"] by simp
  show ?thesis
    by (simp add: budget_inputs_def estimate_tokens_def max_total_tokens_def t c
        truncation_marker_def)
qed

theorem budget_over_ceiling_witness:
  "max_total_tokens
     < estimate_tokens (replicate 12004 CHR ''a'') + estimate_tokens (replicate 12004 CHR ''b'')
   \<and> 2 \<le> max_chars_of (replicate 12004 CHR ''a'') 6002
   \<and> 2 \<le> max_chars_of (replicate 12004 CHR ''b'') 6002
   \<and> fst (budget_inputs (replicate 12004 CHR ''a'') (replicate 12004 CHR ''b''))
       = replicate 6000 CHR ''a'' @ truncation_marker @ replicate 6000 CHR ''a''
   \<and> snd (budget_inputs (replicate 12004 CHR ''a'') (replicate 12004 CHR ''b''))
       = replicate 6000 CHR ''b'' @ truncation_marker @ replicate 6000 CHR ''b''
   \<and> estimate_tokens (fst (budget_inputs (replicate 12004 CHR ''a'') (replicate 12004 CHR ''b'')))
     + estimate_tokens (snd (budget_inputs (replicate 12004 CHR ''a'') (replicate 12004 CHR ''b'')))
     \<le> max_total_tokens + 14"
proof -
  have e: "estimate_tokens (replicate 12004 c) = 3001" for c
    by (simp add: estimate_tokens_def)
  have t: "max_chars_of (replicate 12004 c) 6002 = 12000" for c
    by (rule max_chars_12004) simp
  have over: "max_total_tokens
     < estimate_tokens (replicate 12004 CHR ''a'') + estimate_tokens (replicate 12004 CHR ''b'')"
    by (simp add: e max_total_tokens_def)
  have tr: "2 \<le> max_chars_of (replicate 12004 CHR ''a'')
     (estimate_tokens (replicate 12004 CHR ''a'') + estimate_tokens (replicate 12004 CHR ''b''))"
    by (simp add: e t)
  have tj: "2 \<le> max_chars_of (replicate 12004 CHR ''b'')
     (estimate_tokens (replicate 12004 CHR ''a'') + estimate_tokens (replicate 12004 CHR ''b''))"
    by (simp add: e t)
  show ?thesis
    using budget_over_ceiling [OF over tr tj] over
    by (auto simp add: Let_def e t)
qed

text \<open>
  A target below 2 gives \<open>half_length = 0\<close>, and \<open>text[-0:]\<close> is the whole text: the
  result is the marker followed by all of the original.
\<close>

lemma truncate_text_tiny:
  assumes "t < 2" and "t < length s"
  shows "truncate_text s (int t) = truncation_marker @ s"
proof -
  have "int t div 2 = 0" using assms(1) by simp
  then show ?thesis using assms(2)
    by (simp add: truncate_text_def Let_def slice_def clamp_index_def)
qed

section \<open>Properties of the verdict path\<close>

lemma startswith_prefix: "startswith s p \<longleftrightarrow> prefix p s"
  unfolding startswith_def
  by (metis append_eq_conv_conj prefix_def take_is_prefix)

lemma find_from_none: "find_from sub s i = - 1 \<longleftrightarrow> \<not> sublist sub s"
  by (induction s arbitrary: i) (auto simp: startswith_prefix sublist_Cons_right)

lemma str_in_sublist: "str_in sub s \<longleftrightarrow> sublist sub s"
  by (simp add: str_in_def str_find_def find_from_none)

lemma evaluate_match_response:
  "evaluate_match ext resume job_posting =
     (case and_then (match_response ext resume job_posting) (parse_verdict ext) of
        Inr result \<Rightarrow> Inr result
      | Inl e \<Rightarrow> Inr (error_verdict e))"
  by (simp add: evaluate_match_def match_response_def verdict_stage_def Let_def)

lemma parse_verdict_fallback:
  assumes "loads ext (normalize content) = Inl (JSONDecodeError m)"
    and "regex_verdict ext content = None"
  shows "parse_verdict ext content = Inr (keyword_verdict content)"
  using assms by (simp add: parse_verdict_def)

text \<open>
  Claim C7. When the direct parse of the cleaned match response raises
  \<open>JSONDecodeError\<close> and the pattern search gives no parsed value (no span is found, or
  parsing the span raises), \<open>evaluate_match\<close> returns a record whose \<open>is_match\<close> is
  decided by the response text alone: true exactly when its lower-cased text contains
  \<open>match\<close> and one of \<open>good fit\<close> or \<open>strong match\<close>. Its \<open>match_percentage\<close> is 75
  when \<open>is_match\<close> is true and 30 otherwise, and its \<open>reason\<close> says that the structured
  response could not be parsed and that the verdict rests on keywords.
\<close>

theorem keyword_verdict_on_parse_failure:
  assumes response: "match_response ext resume job_posting = Inr content"
    and direct: "loads ext (normalize content) = Inl (JSONDecodeError m)"
    and scan: "regex_verdict ext content = None"
  shows "\<exists>verdict positive.
           evaluate_match ext resume job_posting = Inr verdict
         \<and> (positive \<longleftrightarrow>
               sublist ''match'' (str_lower content)
               \<and> (sublist ''good fit'' (str_lower content)
                  \<or> sublist ''strong match'' (str_lower content)))
         \<and> field verdict ''is_match'' = Some (JBool positive)
         \<and> field verdict ''match_percentage'' = Some (JInt (if positive then 75 else 30))
         \<and> field verdict ''reason''
             = Some (JStr (''Could not parse structured response. ''
                 @ (if positive then ''Based on keywords, this appears to be a match.''
                    else ''Based on keywords, this does not appear to be a match.'')))"
proof -
  have "evaluate_match ext resume job_posting = Inr (keyword_verdict content)"
    by (simp add: evaluate_match_response response and_then_def
        parse_verdict_fallback [OF direct scan])
  then show ?thesis
    by (simp add: keyword_verdict_def Let_def str_in_sublist)
qed


lemma lower_prose:
  "str_lower ''This candidate is a strong match for the role.''
   = ''this candidate is a strong match for the role.''"
  by code_simp

lemma prose_positive:
  "str_in ''match'' ''this candidate is a strong match for the role.''"
  "str_in ''strong match'' ''this candidate is a strong match for the role.''"
  by (simp_all add: str_in_def str_find_def startswith_def)

theorem keyword_verdict_on_parse_failure_witness:
  "match_response prose_service ''SKILLS: Python, React'' ''Python, SQL''
     = Inr ''This candidate is a strong match for the role.''
   \<and> loads prose_service (normalize ''This candidate is a strong match for the role.'')
     = Inl (JSONDecodeError ''Expecting value: line 1 column 1 (char 0)'')
   \<and> regex_verdict prose_service ''This candidate is a strong match for the role.'' = None
   \<and> (\<exists>verdict.
         evaluate_match prose_service ''SKILLS: Python, React'' ''Python, SQL'' = Inr verdict
       \<and> field verdict ''is_match'' = Some (JBool True)
       \<and> field verdict ''match_percentage'' = Some (JInt 75)
       \<and> field verdict ''reason''
           = Some (JStr (''Could not parse structured response. ''
                         @ ''Based on keywords, this appears to be a match.'')))"
proof -
  have response: "match_response prose_service ''SKILLS: Python, React'' ''Python, SQL''
     = Inr ''This candidate is a strong match for the role.''"
    by (simp add: match_response_def prose_service_def Let_def)
  have direct: "loads prose_service (normalize ''This candidate is a strong match for the role.'')
     = Inl (JSONDecodeError ''Expecting value: line 1 column 1 (char 0)'')"
    by (simp add: prose_service_def)
  have scan: "regex_verdict prose_service ''This candidate is a strong match for the role.'' = None"
    by (simp add: regex_verdict_def prose_service_def split: option.split)
  have positive: "sublist ''match'' (str_lower ''This candidate is a strong match for the role.'')
      \<and> (sublist ''good fit'' (str_lower ''This candidate is a strong match for the role.'')
         \<or> sublist ''strong match'' (str_lower ''This candidate is a strong match for the role.''))"
    unfolding lower_prose str_in_sublist [symmetric] using prose_positive by simp
  show ?thesis
    using keyword_verdict_on_parse_failure [OF response direct scan] response direct scan positive
    by auto
qed


text \<open>
  Claim C10. On the same failure of every parsing attempt, the record that
  \<open>evaluate_match\<close> returns has \<open>matching_skills\<close> and \<open>missing_skills\<close> both equal to
  the empty list.
\<close>

theorem keyword_verdict_skill_lists_empty:
  assumes response: "match_response ext resume job_posting = Inr content"
    and direct: "loads ext (normalize content) = Inl (JSONDecodeError m)"
    and scan: "regex_verdict ext content = None"
  shows "\<exists>verdict.
           evaluate_match ext resume job_posting = Inr verdict
         \<and> field verdict ''matching_skills'' = Some (JArr [])
         \<and> field verdict ''missing_skills'' = Some (JArr [])"
proof -
  have "evaluate_match ext resume job_posting = Inr (keyword_verdict content)"
    by (simp add: evaluate_match_response response and_then_def
        parse_verdict_fallback [OF direct scan])
  then show ?thesis
    by (simp add: keyword_verdict_def Let_def)
qed

theorem keyword_verdict_skill_lists_empty_witness:
  "match_response vague_service ''SKILLS: Python, React'' ''Python, SQL''
     = Inr ''It is hard to say.''
   \<and> loads vague_service (normalize ''It is hard to say.'')
     = Inl (JSONDecodeError ''Expecting value: line 1 column 1 (char 0)'')
   \<and> regex_verdict vague_service ''It is hard to say.'' = None
   \<and> (\<exists>verdict.
         evaluate_match vague_service ''SKILLS: Python, React'' ''Python, SQL'' = Inr verdict
       \<and> field verdict ''matching_skills'' = Some (JArr [])
       \<and> field verdict ''missing_skills'' = Some (JArr []))"
proof -
  have response: "match_response vague_service ''SKILLS: Python, React'' ''Python, SQL''
     = Inr ''It is hard to say.''"
    by (simp add: match_response_def vague_service_def Let_def)
  have direct: "loads vague_service (normalize ''It is hard to say.'')
     = Inl (JSONDecodeError ''Expecting value: line 1 column 1 (char 0)'')"
    by (simp add: vague_service_def)
  have scan: "regex_verdict vague_service ''It is hard to say.'' = None"
    by (simp add: regex_verdict_def vague_service_def split: option.split)
  show ?thesis
    using keyword_verdict_skill_lists_empty [OF response direct scan] response direct scan
    by simp
qed

text \<open>No exception leaves \<open>evaluate_match\<close>, whatever the collaborators do.\<close>

lemma evaluate_match_returns: "\<exists>verdict. evaluate_match ext resume job_posting = Inr verdict"
  by (simp add: evaluate_match_def Let_def split: sum.split)

lemma profile_call_failure_recovered:
  assumes "create ext [(''user'', extract_prompt (highlight skills_section_markers resume))] = Inl e"
  shows "chosen_prompt ext resume job_posting = simple_prompt resume job_posting"
  using assms by (simp add: chosen_prompt_def profile_stage_def and_then_def Let_def)

lemma match_call_failure_reported:
  assumes "match_response ext resume job_posting = Inl e"
  shows "evaluate_match ext resume job_posting
         = Inr (JObj [(''is_match'', JBool False),
                      (''reason'', JStr (''Error evaluating match: '' @ exception_str e))])"
  using assms by (simp add: evaluate_match_response and_then_def error_verdict_def)

lemma match_response_after_failure:
  assumes "create ext [(''user'', extract_prompt (highlight skills_section_markers
                                   (fst (budget_inputs resume job_posting))))] = Inl e"
  shows "match_response ext resume job_posting
         = create ext (match_messages (simple_prompt (fst (budget_inputs resume job_posting))
                                                     (snd (budget_inputs resume job_posting))))"
  unfolding match_response_def Let_def
  by (simp only: profile_call_failure_recovered [OF assms])

lemma parsed_answer_returned:
  assumes "match_response ext resume job_posting = Inr content"
    and "loads ext (normalize content) = Inr result"
  shows "evaluate_match ext resume job_posting = Inr result"
  using assms by (simp add: evaluate_match_response and_then_def parse_verdict_def)

text \<open>
  Claim C8, as amended. \<open>evaluate_match\<close> raises nothing, whatever the collaborators
  do. An exception of the generator call for the match is reported: the result has
  \<open>is_match\<close> false and a \<open>reason\<close> made of \<open>Error evaluating match: \<close> and the text
  of the exception. An exception of the earlier generator call, the one that
  extracts the profile, is not reported: it only switches the match call to the
  simpler prompt, and when that call answers with a text that parses, the parsed
  value is the result.
\<close>

theorem generator_failure_outcomes:
  "(\<exists>verdict. evaluate_match ext resume job_posting = Inr verdict)
   \<and> (\<forall>e. match_response ext resume job_posting = Inl e \<longrightarrow>
          evaluate_match ext resume job_posting
          = Inr (JObj [(''is_match'', JBool False),
                       (''reason'', JStr (''Error evaluating match: '' @ exception_str e))]))
   \<and> (\<forall>e. create ext [(''user'', extract_prompt (highlight skills_section_markers
                                      (fst (budget_inputs resume job_posting))))] = Inl e \<longrightarrow>
          match_response ext resume job_posting
          = create ext (match_messages (simple_prompt (fst (budget_inputs resume job_posting))
                                                      (snd (budget_inputs resume job_posting)))))
   \<and> (\<forall>content result.
          match_response ext resume job_posting = Inr content
        \<and> loads ext (normalize content) = Inr result \<longrightarrow>
          evaluate_match ext resume job_posting = Inr result)"
proof (intro conjI allI impI)
  show "\<exists>verdict. evaluate_match ext resume job_posting = Inr verdict"
    by (rule evaluate_match_returns)
next
  fix e
  assume "match_response ext resume job_posting = Inl e"
  then show "evaluate_match ext resume job_posting
          = Inr (JObj [(''is_match'', JBool False),
                       (''reason'', JStr (''Error evaluating match: '' @ exception_str e))])"
    by (rule match_call_failure_reported)
next
  fix e
  assume "create ext [(''user'', extract_prompt (highlight skills_section_markers
                                      (fst (budget_inputs resume job_posting))))] = Inl e"
  then show "match_response ext resume job_posting
          = create ext (match_messages (simple_prompt (fst (budget_inputs resume job_posting))
                                                      (snd (budget_inputs resume job_posting))))"
    by (rule match_response_after_failure)
next
  fix content result
  assume "match_response ext resume job_posting = Inr content
        \<and> loads ext (normalize content) = Inr result"
  then show "evaluate_match ext resume job_posting = Inr result"
    using parsed_answer_returned by blast
qed

lemma sample_answer_normalize: \<open>normalize ''{"is_match": true}'' = ''{"is_match": true}''\<close>
  by code_simp

lemma interrupted_extraction:
  "create interrupted_service [(''user'', extract_prompt (highlight skills_section_markers
      (fst (budget_inputs ''SKILLS: Python, React'' ''Python, SQL''))))]
   = Inl (OtherException ''Connection error.'')"
  by (simp add: interrupted_service_def)

lemma interrupted_answer:
  \<open>create interrupted_service (match_messages prompt) = Inr ''{"is_match": true}''\<close>
  by (simp add: interrupted_service_def match_messages_def)

lemma interrupted_loads:
  \<open>loads interrupted_service (normalize ''{"is_match": true}'')
   = Inr (JObj [(''is_match'', JBool True)])\<close>
  by (simp add: sample_answer_normalize interrupted_service_def)

theorem generator_failure_outcomes_witness:
  \<open>match_response failing_service ''SKILLS: Python, React'' ''Python, SQL''
     = Inl (OtherException ''Connection error.'')
   \<and> evaluate_match failing_service ''SKILLS: Python, React'' ''Python, SQL''
     = Inr (JObj [(''is_match'', JBool False),
                  (''reason'', JStr ''Error evaluating match: Connection error.'')])
   \<and> create interrupted_service [(''user'', extract_prompt (highlight skills_section_markers
        (fst (budget_inputs ''SKILLS: Python, React'' ''Python, SQL''))))]
     = Inl (OtherException ''Connection error.'')
   \<and> match_response interrupted_service ''SKILLS: Python, React'' ''Python, SQL''
     = Inr ''{"is_match": true}''
   \<and> evaluate_match interrupted_service ''SKILLS: Python, React'' ''Python, SQL''
     = Inr (JObj [(''is_match'', JBool True)])\<close>
proof -
  note f = generator_failure_outcomes [of failing_service "''SKILLS: Python, React''" "''Python, SQL''"]
  note i = generator_failure_outcomes [of interrupted_service "''SKILLS: Python, React''" "''Python, SQL''"]
  have a: "match_response failing_service ''SKILLS: Python, React'' ''Python, SQL''
     = Inl (OtherException ''Connection error.'')"
    by (simp add: match_response_def failing_service_def Let_def)
  have b: "evaluate_match failing_service ''SKILLS: Python, React'' ''Python, SQL''
     = Inr (JObj [(''is_match'', JBool False),
                  (''reason'', JStr ''Error evaluating match: Connection error.'')])"
    using f [THEN conjunct2, THEN conjunct1, THEN spec, THEN mp, OF a] by simp
  have c: \<open>match_response interrupted_service ''SKILLS: Python, React'' ''Python, SQL''
     = Inr ''{"is_match": true}''\<close>
    using i [THEN conjunct2, THEN conjunct2, THEN conjunct1, THEN spec, THEN mp,
        OF interrupted_extraction]
    by (simp only: interrupted_answer)
  have d: \<open>evaluate_match interrupted_service ''SKILLS: Python, React'' ''Python, SQL''
     = Inr (JObj [(''is_match'', JBool True)])\<close>
    using i [THEN conjunct2, THEN conjunct2, THEN conjunct2, THEN spec, THEN spec, THEN mp,
        OF conjI, OF c interrupted_loads] .
  from a b interrupted_extraction c d show ?thesis by (intro conjI)
qed

text \<open>
  The claim as stated fails when it is the extraction call that raises: with a
  generator whose single-message request fails with a connection error and whose
  match request is answered, the result is the parsed answer, with \<open>is_match\<close> true
  and no word of the error.
\<close>

theorem generator_failure_counterexample:
  \<open>create interrupted_service [(''user'', extract_prompt (highlight skills_section_markers
        (fst (budget_inputs ''SKILLS: Python, React'' ''Python, SQL''))))]
     = Inl (OtherException ''Connection error.'')
   \<and> evaluate_match interrupted_service ''SKILLS: Python, React'' ''Python, SQL''
     = Inr (JObj [(''is_match'', JBool True)])\<close>
proof -
  have \<open>match_response interrupted_service ''SKILLS: Python, React'' ''Python, SQL''
     = Inr ''{"is_match": true}''\<close>
    unfolding match_response_def Let_def by (rule interrupted_answer)
  then have \<open>evaluate_match interrupted_service ''SKILLS: Python, React'' ''Python, SQL''
     = Inr (JObj [(''is_match'', JBool True)])\<close>
    using interrupted_loads by (rule parsed_answer_returned)
  with interrupted_extraction show ?thesis by (intro conjI)
qed

section \<open>Properties of the profile path\<close>

text \<open>Rules that evaluate the string functions on literals.\<close>

lemmas eval_lower = str_lower_def lower_char_def is_upper_def char_of_def bit_0 Let_def
lemmas eval_in = str_in_def str_find_def startswith_def

lemma scan_keywords_sublist:
  "scan_keywords resume
   = filter (\<lambda>keyword. sublist (str_lower keyword) (str_lower resume)) tech_keywords"
  by (simp add: scan_keywords_def str_in_sublist)

lemma scan_keywords_sample: "scan_keywords ''SKILLS: Python, React'' = [''Python'', ''React'']"
  by (simp add: scan_keywords_def tech_keywords_def eval_lower eval_in)

lemma scan_keywords_none: "scan_keywords ''I like cooking'' = []"
  by (simp add: scan_keywords_def tech_keywords_def eval_lower eval_in)

lemma analyse_response_fallback:
  assumes "parse_profile ext (normalize (str_strip raw)) = Inl (JSONDecodeError m)"
  shows "analyse_response ext resume raw = Inr (dumps ext (fallback_profile resume))"
  using assms by (simp add: analyse_response_def and_then_def)

text \<open>
  Claim C6. For every source text, the profile synthesized after a parse failure has
  an \<open>ExplicitSkills\<close> list that is not empty: it holds every term of the fixed
  vocabulary whose lower-cased form occurs in the lower-cased source text, in the
  order of the vocabulary, or, when no term occurs, the single entry
  \<open>Unable to parse skills\<close>.
\<close>

theorem fallback_profile_skills:
  "\<exists>skills.
      field (fallback_profile resume) ''ExplicitSkills'' = Some (JArr (map JStr skills))
    \<and> skills \<noteq> []
    \<and> skills =
        (let found = filter (\<lambda>keyword. sublist (str_lower keyword) (str_lower resume))
                       tech_keywords
         in if found = [] then [''Unable to parse skills''] else found)"
  by (simp add: fallback_profile_def Let_def scan_keywords_sublist)

theorem fallback_profile_skills_witness:
  "field (fallback_profile ''SKILLS: Python, React'') ''ExplicitSkills''
     = Some (JArr [JStr ''Python'', JStr ''React''])
   \<and> field (fallback_profile ''I like cooking'') ''ExplicitSkills''
     = Some (JArr [JStr ''Unable to parse skills''])"
proof -
  have a: "filter (\<lambda>keyword. sublist (str_lower keyword) (str_lower ''SKILLS: Python, React''))
             tech_keywords = [''Python'', ''React'']"
    unfolding scan_keywords_sublist [symmetric] by (rule scan_keywords_sample)
  have b: "filter (\<lambda>keyword. sublist (str_lower keyword) (str_lower ''I like cooking''))
             tech_keywords = []"
    unfolding scan_keywords_sublist [symmetric] by (rule scan_keywords_none)
  show ?thesis
    using fallback_profile_skills [of "''SKILLS: Python, React''"]
      fallback_profile_skills [of "''I like cooking''"]
    unfolding a b by auto
qed

subsection \<open>The field checks after a successful parse\<close>





text \<open>
  The text handed to the match prompt is serialized from the record as parsed, before
  the checks above run.
\<close>

lemma analyse_response_before_repair:
  assumes "parse_profile ext (normalize (str_strip raw)) = Inr parsed_json"
    and "repair_fields resume parsed_json = Inr repaired"
  shows "analyse_response ext resume raw = Inr (dumps ext parsed_json)"
  using assms by (simp add: analyse_response_def and_then_def Let_def)

section \<open>Properties of the tagging pass\<close>

lemma replace_scan_absent:
  assumes "\<not> sublist old s"
  shows "replace_scan old new s = s"
  using assms
  by (induction old new s rule: replace_scan.induct)
     (auto simp: startswith_prefix sublist_Cons_right)

lemma replace_scan_length:
  "length s \<le> length (replace_scan old (t @ old) s)"
proof (induction old "t @ old" s rule: replace_scan.induct)
  case (1 old)
  then show ?case by simp
next
  case (2 old c cs)
  then show ?case by (auto simp: Suc_le_eq)
qed

lemma replace_scan_grows:
  assumes "sublist old s" and "t \<noteq> []" and "old \<noteq> []"
  shows "length s < length (replace_scan old (t @ old) s)"
  using assms
proof (induction old "t @ old" s rule: replace_scan.induct)
  case (1 old)
  then show ?case by simp
next
  case (2 old c cs)
  show ?case
  proof (cases "old \<noteq> [] \<and> startswith (c # cs) old")
    case True
    have "length (drop (length old) (c # cs))
          \<le> length (replace_scan old (t @ old) (drop (length old) (c # cs)))"
      by (rule replace_scan_length)
    moreover have "0 < length t" using 2(4) by simp
    moreover have "length old \<le> length (c # cs)"
      using True by (auto simp: startswith_prefix dest: prefix_length_le)
    ultimately show ?thesis using True 2(4) by (cases t) auto
  next
    case False
    with 2(3,5) have "sublist old cs"
      by (auto simp: startswith_prefix sublist_Cons_right)
    with False 2 show ?thesis by auto
  qed
qed

lemma replace_scan_keeps:
  assumes "sublist old s"
  shows "sublist old (replace_scan old (t @ old) s)"
  using assms
proof (induction old "t @ old" s rule: replace_scan.induct)
  case (1 old)
  then show ?case by simp
next
  case (2 old c cs)
  show ?case
  proof (cases "old \<noteq> [] \<and> startswith (c # cs) old")
    case True
    have "sublist old (t @ old @ replace_scan old (t @ old) (drop (length old) (c # cs)))"
      by (rule sublist_appendI)
    with True show ?thesis by simp
  next
    case False
    show ?thesis
    proof (cases "old = []")
      case True
      then show ?thesis by simp
    next
      case nonempty: False
      with False 2(3) have "sublist old cs"
        by (auto simp: startswith_prefix sublist_Cons_right)
      with False 2 show ?thesis by (auto simp: sublist_Cons_right)
    qed
  qed
qed


lemma tag_step_absent: "\<not> sublist p h \<Longrightarrow> tag_step h p = h"
  by (auto simp: tag_step_def str_replace_def replace_scan_absent)

lemma tag_step_length: "p \<noteq> [] \<Longrightarrow> length h \<le> length (tag_step h p)"
  by (simp add: tag_step_def str_replace_def replace_scan_length)

lemma section_tag_nonempty: "section_tag \<noteq> []"
  by (simp add: section_tag_def)

lemma tag_step_grows: "p \<noteq> [] \<Longrightarrow> sublist p h \<Longrightarrow> length h < length (tag_step h p)"
  by (simp add: tag_step_def str_replace_def replace_scan_grows section_tag_nonempty)

lemma tag_step_keeps: "p \<noteq> [] \<Longrightarrow> sublist p h \<Longrightarrow> sublist p (tag_step h p)"
  by (simp add: tag_step_def str_replace_def replace_scan_keeps)

lemma tag_steps_length:
  "\<forall>p \<in> set ps. p \<noteq> [] \<Longrightarrow> length h \<le> length (foldl tag_step h ps)"
proof (induction ps arbitrary: h)
  case Nil
  then show ?case by simp
next
  case (Cons p ps)
  have "length h \<le> length (tag_step h p)" using Cons.prems by (simp add: tag_step_length)
  also have "\<dots> \<le> length (foldl tag_step (tag_step h p) ps)" using Cons by simp
  finally show ?case by simp
qed

lemma tag_steps_absent:
  "\<forall>p \<in> set ps. \<not> sublist p h \<Longrightarrow> foldl tag_step h ps = h"
  by (induction ps) (simp_all add: tag_step_absent)

lemma tag_steps_grow:
  assumes "\<forall>p \<in> set ps. p \<noteq> []" and "\<exists>p \<in> set ps. sublist p h"
  shows "length h < length (foldl tag_step h ps)"
  using assms
proof (induction ps arbitrary: h)
  case Nil
  then show ?case by simp
next
  case (Cons p ps)
  show ?case
  proof (cases "sublist p h")
    case True
    have "length h < length (tag_step h p)" using True Cons.prems(1) by (simp add: tag_step_grows)
    also have "\<dots> \<le> length (foldl tag_step (tag_step h p) ps)"
      using Cons.prems(1) by (simp add: tag_steps_length)
    finally show ?thesis by simp
  next
    case False
    then have "tag_step h p = h" by (rule tag_step_absent)
    moreover have "\<exists>q \<in> set ps. sublist q h" using False Cons.prems(2) by auto
    ultimately show ?thesis using Cons.IH [of h] Cons.prems(1) by simp
  qed
qed

lemma tag_steps_leave_pattern:
  assumes "\<forall>p \<in> set ps. p \<noteq> []" and "foldl tag_step h ps \<noteq> h"
  shows "\<exists>p \<in> set ps. sublist p (foldl tag_step h ps)"
  using assms
proof (induction ps rule: rev_induct)
  case Nil
  then show ?case by simp
next
  case (snoc p ps)
  show ?case
  proof (cases "sublist p (foldl tag_step h ps)")
    case True
    then have "sublist p (tag_step (foldl tag_step h ps) p)"
      using snoc.prems(1) by (simp add: tag_step_keeps)
    then show ?thesis by auto
  next
    case False
    then have same: "tag_step (foldl tag_step h ps) p = foldl tag_step h ps"
      by (rule tag_step_absent)
    with snoc.prems(2) have "foldl tag_step h ps \<noteq> h" by simp
    with snoc.IH snoc.prems(1) obtain q where "q \<in> set ps" "sublist q (foldl tag_step h ps)"
      by auto
    with same show ?thesis by auto
  qed
qed

lemma highlight_marker_steps:
  "highlight_marker marker h = foldl tag_step h (marker_patterns marker)"
  by (simp add: highlight_marker_def marker_patterns_def tag_step_def Let_def)

lemma highlight_steps:
  "highlight markers resume = foldl tag_step resume (concat (map marker_patterns markers))"
  unfolding highlight_def
  by (induction markers arbitrary: resume) (simp_all add: highlight_marker_steps)

lemma patterns_nonempty: "\<forall>p \<in> set (concat (map marker_patterns markers)). p \<noteq> []"
  by (auto simp: marker_patterns_def)

lemma no_marker_occurs_patterns:
  "no_marker_occurs markers resume
   \<longleftrightarrow> (\<forall>p \<in> set (concat (map marker_patterns markers)). \<not> sublist p resume)"
  by (auto simp: no_marker_occurs_def)

lemma highlight_absent: "no_marker_occurs markers resume \<Longrightarrow> highlight markers resume = resume"
  by (simp add: highlight_steps no_marker_occurs_patterns tag_steps_absent)

lemma highlight_grows:
  assumes "\<not> no_marker_occurs markers resume"
  shows "length resume < length (highlight markers resume)"
  using assms unfolding highlight_steps no_marker_occurs_patterns
  by (intro tag_steps_grow patterns_nonempty) simp

lemma highlight_not_idempotent:
  assumes "\<not> no_marker_occurs markers resume"
  shows "length (highlight markers resume) < length (highlight markers (highlight markers resume))"
proof -
  have "highlight markers resume \<noteq> resume" using highlight_grows [OF assms] by auto
  then have "\<exists>p \<in> set (concat (map marker_patterns markers)). sublist p (highlight markers resume)"
    unfolding highlight_steps by (intro tag_steps_leave_pattern patterns_nonempty)
  then have "\<not> no_marker_occurs markers (highlight markers resume)"
    by (simp add: no_marker_occurs_patterns)
  then show ?thesis by (rule highlight_grows)
qed

text \<open>
  Claim C2, as amended. Each of the three \<open>replace\<close> calls per marker puts the
  sentinel tag before every occurrence of its pattern, so a tagged text still holds
  the pattern and a further application tags it again. The pass is idempotent at a
  text exactly when no marker followed by a colon, in any of the three case variants,
  occurs in it. On such a text the pass returns the text unchanged, for every order
  of the markers.
\<close>

theorem highlight_idempotent_iff:
  "(highlight markers (highlight markers resume) = highlight markers resume
      \<longleftrightarrow> no_marker_occurs markers resume)
   \<and> (no_marker_occurs markers resume \<longrightarrow>
        highlight markers resume = resume
        \<and> (\<forall>reordered. set reordered = set markers \<longrightarrow>
              highlight reordered resume = highlight markers resume))"
proof -
  have a: "highlight markers (highlight markers resume) = highlight markers resume"
    if "no_marker_occurs markers resume"
    using that by (simp add: highlight_absent)
  have b: "highlight markers (highlight markers resume) \<noteq> highlight markers resume"
    if "\<not> no_marker_occurs markers resume"
    using highlight_not_idempotent [OF that] by auto
  have c: "highlight reordered resume = highlight markers resume"
    if "no_marker_occurs markers resume" "set reordered = set markers" for reordered
  proof -
    have "no_marker_occurs reordered resume" using that by (simp add: no_marker_occurs_def)
    with that(1) show ?thesis by (simp add: highlight_absent)
  qed
  show ?thesis using a b c by (auto simp: highlight_absent)
qed


lemmas eval_case = str_title_def str_upper_def upper_char_def is_lower_def eval_lower

lemma marker_patterns_value:
  "concat (map marker_patterns skills_section_markers) =
     [''SKILLS:'', ''Skills:'', ''SKILLS:'',
      ''TECHNICAL SKILLS:'', ''Technical Skills:'', ''TECHNICAL SKILLS:'',
      ''TECHNOLOGIES:'', ''Technologies:'', ''TECHNOLOGIES:'',
      ''CORE COMPETENCIES:'', ''Core Competencies:'', ''CORE COMPETENCIES:'',
      ''EXPERTISE:'', ''Expertise:'', ''EXPERTISE:'',
      ''PROFICIENCIES:'', ''Proficiencies:'', ''PROFICIENCIES:'',
      ''TECHNICAL EXPERTISE:'', ''Technical Expertise:'', ''TECHNICAL EXPERTISE:'',
      ''TOOLS:'', ''Tools:'', ''TOOLS:'']"
  by (simp add: marker_patterns_def skills_section_markers_def eval_case)

lemma marker_patterns_reversed:
  "concat (map marker_patterns (rev skills_section_markers)) =
     [''TOOLS:'', ''Tools:'', ''TOOLS:'',
      ''TECHNICAL EXPERTISE:'', ''Technical Expertise:'', ''TECHNICAL EXPERTISE:'',
      ''PROFICIENCIES:'', ''Proficiencies:'', ''PROFICIENCIES:'',
      ''EXPERTISE:'', ''Expertise:'', ''EXPERTISE:'',
      ''CORE COMPETENCIES:'', ''Core Competencies:'', ''CORE COMPETENCIES:'',
      ''TECHNOLOGIES:'', ''Technologies:'', ''TECHNOLOGIES:'',
      ''TECHNICAL SKILLS:'', ''Technical Skills:'', ''TECHNICAL SKILLS:'',
      ''SKILLS:'', ''Skills:'', ''SKILLS:'']"
  by (simp add: marker_patterns_def skills_section_markers_def eval_case)

theorem highlight_idempotent_iff_witness:
  "no_marker_occurs skills_section_markers ''Python developer''
   \<and> highlight skills_section_markers ''Python developer'' = ''Python developer''
   \<and> highlight skills_section_markers (highlight skills_section_markers ''Python developer'')
     = highlight skills_section_markers ''Python developer''
   \<and> highlight (rev skills_section_markers) ''Python developer''
     = highlight skills_section_markers ''Python developer''"
proof -
  have "list_all (\<lambda>p. \<not> str_in p ''Python developer'')
     [''SKILLS:'', ''Skills:'', ''SKILLS:'',
      ''TECHNICAL SKILLS:'', ''Technical Skills:'', ''TECHNICAL SKILLS:'',
      ''TECHNOLOGIES:'', ''Technologies:'', ''TECHNOLOGIES:'',
      ''CORE COMPETENCIES:'', ''Core Competencies:'', ''CORE COMPETENCIES:'',
      ''EXPERTISE:'', ''Expertise:'', ''EXPERTISE:'',
      ''PROFICIENCIES:'', ''Proficiencies:'', ''PROFICIENCIES:'',
      ''TECHNICAL EXPERTISE:'', ''Technical Expertise:'', ''TECHNICAL EXPERTISE:'',
      ''TOOLS:'', ''Tools:'', ''TOOLS:'']"
    by code_simp
  then have none: "no_marker_occurs skills_section_markers ''Python developer''"
    unfolding no_marker_occurs_patterns marker_patterns_value
    by (simp only: list_all_iff str_in_sublist)
  have "set (rev skills_section_markers) = set skills_section_markers" by simp
  then show ?thesis
    using highlight_idempotent_iff [of skills_section_markers "''Python developer''"] none
    by blast
qed

text \<open>
  The claim as stated fails on \<open>SKILLS:\<close>, which one application tags twice (the
  marker as given and its upper-case variant are the same pattern) and a second
  application four times, and on \<open>TECHNICAL SKILLS:\<close>, where the result depends on
  whether \<open>SKILLS\<close> or \<open>TECHNICAL SKILLS\<close> comes first.
\<close>

theorem highlight_counterexample:
  "highlight skills_section_markers ''SKILLS:''
     = ''>>>SKILLS_SECTION<<< >>>SKILLS_SECTION<<< SKILLS:''
   \<and> highlight skills_section_markers (highlight skills_section_markers ''SKILLS:'')
     = ''>>>SKILLS_SECTION<<< >>>SKILLS_SECTION<<< >>>SKILLS_SECTION<<< >>>SKILLS_SECTION<<< SKILLS:''
   \<and> highlight skills_section_markers ''TECHNICAL SKILLS:''
     = ''TECHNICAL >>>SKILLS_SECTION<<< >>>SKILLS_SECTION<<< SKILLS:''
   \<and> highlight (rev skills_section_markers) ''TECHNICAL SKILLS:''
     = ''>>>SKILLS_SECTION<<< >>>SKILLS_SECTION<<< TECHNICAL >>>SKILLS_SECTION<<< >>>SKILLS_SECTION<<< SKILLS:''"
proof -
  have a: "foldl tag_step ''SKILLS:''
     [''SKILLS:'', ''Skills:'', ''SKILLS:'',
      ''TECHNICAL SKILLS:'', ''Technical Skills:'', ''TECHNICAL SKILLS:'',
      ''TECHNOLOGIES:'', ''Technologies:'', ''TECHNOLOGIES:'',
      ''CORE COMPETENCIES:'', ''Core Competencies:'', ''CORE COMPETENCIES:'',
      ''EXPERTISE:'', ''Expertise:'', ''EXPERTISE:'',
      ''PROFICIENCIES:'', ''Proficiencies:'', ''PROFICIENCIES:'',
      ''TECHNICAL EXPERTISE:'', ''Technical Expertise:'', ''TECHNICAL EXPERTISE:'',
      ''TOOLS:'', ''Tools:'', ''TOOLS:'']
     = ''>>>SKILLS_SECTION<<< >>>SKILLS_SECTION<<< SKILLS:''"
    by code_simp
  have b: "foldl tag_step ''>>>SKILLS_SECTION<<< >>>SKILLS_SECTION<<< SKILLS:''
     [''SKILLS:'', ''Skills:'', ''SKILLS:'',
      ''TECHNICAL SKILLS:'', ''Technical Skills:'', ''TECHNICAL SKILLS:'',
      ''TECHNOLOGIES:'', ''Technologies:'', ''TECHNOLOGIES:'',
      ''CORE COMPETENCIES:'', ''Core Competencies:'', ''CORE COMPETENCIES:'',
      ''EXPERTISE:'', ''Expertise:'', ''EXPERTISE:'',
      ''PROFICIENCIES:'', ''Proficiencies:'', ''PROFICIENCIES:'',
      ''TECHNICAL EXPERTISE:'', ''Technical Expertise:'', ''TECHNICAL EXPERTISE:'',
      ''TOOLS:'', ''Tools:'', ''TOOLS:'']
     = ''>>>SKILLS_SECTION<<< >>>SKILLS_SECTION<<< >>>SKILLS_SECTION<<< >>>SKILLS_SECTION<<< SKILLS:''"
    by code_simp
  have c: "foldl tag_step ''TECHNICAL SKILLS:''
     [''SKILLS:'', ''Skills:'', ''SKILLS:'',
      ''TECHNICAL SKILLS:'', ''Technical Skills:'', ''TECHNICAL SKILLS:'',
      ''TECHNOLOGIES:'', ''Technologies:'', ''TECHNOLOGIES:'',
      ''CORE COMPETENCIES:'', ''Core Competencies:'', ''CORE COMPETENCIES:'',
      ''EXPERTISE:'', ''Expertise:'', ''EXPERTISE:'',
      ''PROFICIENCIES:'', ''Proficiencies:'', ''PROFICIENCIES:'',
      ''TECHNICAL EXPERTISE:'', ''Technical Expertise:'', ''TECHNICAL EXPERTISE:'',
      ''TOOLS:'', ''Tools:'', ''TOOLS:'']
     = ''TECHNICAL >>>SKILLS_SECTION<<< >>>SKILLS_SECTION<<< SKILLS:''"
    by code_simp
  have d: "foldl tag_step ''TECHNICAL SKILLS:''
     [''TOOLS:'', ''Tools:'', ''TOOLS:'',
      ''TECHNICAL EXPERTISE:'', ''Technical Expertise:'', ''TECHNICAL EXPERTISE:'',
      ''PROFICIENCIES:'', ''Proficiencies:'', ''PROFICIENCIES:'',
      ''EXPERTISE:'', ''Expertise:'', ''EXPERTISE:'',
      ''CORE COMPETENCIES:'', ''Core Competencies:'', ''CORE COMPETENCIES:'',
      ''TECHNOLOGIES:'', ''Technologies:'', ''TECHNOLOGIES:'',
      ''TECHNICAL SKILLS:'', ''Technical Skills:'', ''TECHNICAL SKILLS:'',
      ''SKILLS:'', ''Skills:'', ''SKILLS:'']
     = ''>>>SKILLS_SECTION<<< >>>SKILLS_SECTION<<< TECHNICAL >>>SKILLS_SECTION<<< >>>SKILLS_SECTION<<< SKILLS:''"
    by code_simp
  show ?thesis
    unfolding highlight_steps marker_patterns_value marker_patterns_reversed a b c d
    by simp
qed

section \<open>Properties of the normalizer\<close>

lemma endswith_suffix: "endswith s p \<longleftrightarrow> suffix p s"
proof
  assume "endswith s p"
  then have "drop (length s - length p) s = p" by (simp add: endswith_def)
  then show "suffix p s" by (metis suffix_drop)
next
  assume "suffix p s"
  then obtain xs where "s = xs @ p" by (auto simp: suffix_def)
  then show "endswith s p" by (simp add: endswith_def)
qed

lemma slice_from: "slice s (Some (int n)) None = drop n s"
  by (simp add: slice_def clamp_index_def min_def Let_def)

lemma slice_between:
  "a \<le> length s \<Longrightarrow> b \<le> length s
   \<Longrightarrow> slice s (Some (int a)) (Some (int b)) = take (b - a) (drop a s)"
  by (simp add: slice_def clamp_index_def min_def Let_def)

lemma find_from_absent: "c \<notin> set s \<Longrightarrow> find_from [c] s i = - 1"
  by (induction s arbitrary: i) (auto simp: startswith_def)

lemma find_from_first:
  "c \<notin> set pre \<Longrightarrow> find_from [c] (pre @ c # rest) i = int (i + length pre)"
  by (induction pre arbitrary: i) (auto simp: startswith_def)

lemma rfind_from_absent: "c \<notin> set s \<Longrightarrow> rfind_from [c] s i found = found"
  by (induction s arbitrary: i found) (auto simp: startswith_def)

lemma rfind_from_last:
  "c \<notin> set post \<Longrightarrow> rfind_from [c] (xs @ c # post) i found = int (i + length xs)"
  by (induction xs arbitrary: i found) (auto simp: startswith_def rfind_from_absent)

lemma slice_braces_span:
  assumes "CHR ''{'' \<notin> set pre" and "CHR ''}'' \<notin> set post"
  shows "slice_braces (pre @ ''{'' @ mid @ ''}'' @ post) = ''{'' @ mid @ ''}''"
proof -
  have f: "str_find (pre @ ''{'' @ mid @ ''}'' @ post) ''{'' = int (length pre)"
    using find_from_first [OF assms(1), of "mid @ ''}'' @ post" 0] by (simp add: str_find_def)
  have "str_rfind ((pre @ ''{'' @ mid) @ CHR ''}'' # post) ''}'' = int (length (pre @ ''{'' @ mid))"
    unfolding str_rfind_def using rfind_from_last [OF assms(2), of "pre @ ''{'' @ mid" 0 "- 1"]
    by simp
  then have r: "str_rfind (pre @ ''{'' @ mid @ ''}'' @ post) ''}'' = int (length pre + 1 + length mid)"
    by simp
  have e: "int (length pre + 1 + length mid) + 1 = int (length pre + length mid + 2)"
    by simp
  have "slice (pre @ ''{'' @ mid @ ''}'' @ post) (Some (int (length pre)))
          (Some (int (length pre + length mid + 2)))
        = ''{'' @ mid @ ''}''"
    by (subst slice_between) simp_all
  then show ?thesis
    unfolding slice_braces_def Let_def f r e by simp
qed


lemma slice_braces_unchanged:
  assumes "\<not> (\<exists>pre mid post. s = pre @ ''{'' @ mid @ ''}'' @ post)"
  shows "slice_braces s = s"
proof (rule ccontr)
  assume changed: "slice_braces s \<noteq> s"
  then have cond: "str_find s ''{'' \<noteq> - 1" "str_rfind s ''}'' \<noteq> - 1"
    "str_find s ''{'' < str_rfind s ''}''"
    by (auto simp: slice_braces_def Let_def split: if_splits)
  have "CHR ''{'' \<in> set s"
    using cond(1) find_from_absent [of "CHR ''{''" s 0] by (auto simp: str_find_def)
  then obtain pre r where s1: "s = pre @ CHR ''{'' # r" "CHR ''{'' \<notin> set pre"
    by (auto dest: split_list_first)
  have "CHR ''}'' \<in> set s"
    using cond(2) rfind_from_absent [of "CHR ''}''" s 0 "- 1"] by (auto simp: str_rfind_def)
  then obtain xs post where s2: "s = xs @ CHR ''}'' # post" "CHR ''}'' \<notin> set post"
    by (auto dest: split_list_last)
  have f: "str_find s ''{'' = int (length pre)"
    using find_from_first [OF s1(2), of r 0] by (simp add: str_find_def s1(1))
  have l: "str_rfind s ''}'' = int (length xs)"
    using rfind_from_last [OF s2(2), of xs 0 "- 1"] by (simp add: str_rfind_def s2(1))
  have len: "length pre < length xs" using cond(3) f l by simp
  have "pre @ CHR ''{'' # r = xs @ CHR ''}'' # post" using s1(1) s2(1) by simp
  then obtain us where "pre @ us = xs \<and> CHR ''{'' # r = us @ CHR ''}'' # post
      \<or> pre = xs @ us \<and> us @ CHR ''{'' # r = CHR ''}'' # post"
    by (auto simp: append_eq_append_conv2)
  with len have us: "pre @ us = xs" "CHR ''{'' # r = us @ CHR ''}'' # post" "us \<noteq> []"
    by auto
  then obtain mid where "us = CHR ''{'' # mid" by (cases us) auto
  with us s2(1) have "s = pre @ ''{'' @ mid @ ''}'' @ post" by auto
  with assms show False by blast
qed

lemma brace_pair_first_last:
  assumes "s = a @ ''{'' @ b @ ''}'' @ c"
  shows "\<exists>pre mid post. s = pre @ ''{'' @ mid @ ''}'' @ post
           \<and> CHR ''{'' \<notin> set pre \<and> CHR ''}'' \<notin> set post"
proof -
  have "\<exists>ys zs. a @ ''{'' = ys @ CHR ''{'' # zs \<and> CHR ''{'' \<notin> set ys"
    by (rule split_list_first) simp
  then obtain pre r where p: "a @ ''{'' = pre @ CHR ''{'' # r" "CHR ''{'' \<notin> set pre"
    by blast
  have "\<exists>ys zs. ''}'' @ c = ys @ CHR ''}'' # zs \<and> CHR ''}'' \<notin> set zs"
    by (rule split_list_last) simp
  then obtain xs post where q: "''}'' @ c = xs @ CHR ''}'' # post" "CHR ''}'' \<notin> set post"
    by blast
  have "s = (a @ ''{'') @ b @ (''}'' @ c)" using assms by simp
  also have "\<dots> = pre @ ''{'' @ (r @ b @ xs) @ ''}'' @ post"
    unfolding p(1) q(1) by simp
  finally show ?thesis using p(2) q(2) by blast
qed

lemma str_strip_braced: "str_strip (''{'' @ mid @ ''}'') = ''{'' @ mid @ ''}''"
  by (simp add: str_strip_def isspace_def)

lemma str_strip_decomposition:
  "\<exists>before after. s = before @ str_strip s @ after
     \<and> (\<forall>c \<in> set before. isspace c) \<and> (\<forall>c \<in> set after. isspace c)"
proof -
  define t where "t = dropWhile isspace s"
  have a: "s = takeWhile isspace s @ t" by (simp add: t_def)
  have "rev t = takeWhile isspace (rev t) @ dropWhile isspace (rev t)" by simp
  then have "t = rev (dropWhile isspace (rev t)) @ rev (takeWhile isspace (rev t))"
    by (metis rev_append rev_rev_ident)
  then have b: "t = str_strip s @ rev (takeWhile isspace (rev t))"
    by (simp add: str_strip_def t_def)
  have "s = takeWhile isspace s @ str_strip s @ rev (takeWhile isspace (rev t))"
    using a b by simp
  moreover have "\<forall>c \<in> set (takeWhile isspace s). isspace c"
    by (auto dest: set_takeWhileD)
  moreover have "\<forall>c \<in> set (rev (takeWhile isspace (rev t))). isspace c"
    by (auto dest: set_takeWhileD)
  ultimately show ?thesis by blast
qed

lemma slice_drop_last:
  "0 < n \<Longrightarrow> n \<le> length s \<Longrightarrow> slice s None (Some (- int n)) = take (length s - n) s"
  by (auto simp add: slice_def clamp_index_def min_def max_def Let_def nat_diff_distrib')

lemma strip_fences_decomposition:
  "\<exists>lead trail.
      t = lead @ strip_fences t @ trail
    \<and> lead = (if prefix ''```json'' t then ''```json''
              else if prefix ''```'' t then ''```'' else [])
    \<and> trail = (if suffix ''```'' (drop (length lead) t) then ''```'' else [])"
proof -
  define lead where "lead = (if prefix ''```json'' t then ''```json''
              else if prefix ''```'' t then ''```'' else [])"
  define s1 where "s1 = drop (length lead) t"
  define trail where "trail = (if suffix ''```'' s1 then ''```'' else [])"
  have lead: "prefix lead t" by (simp add: lead_def)
  then have t: "t = lead @ s1" by (auto simp: s1_def prefix_def)
  have l7: "length ''```json'' = 7" and l3: "length ''```'' = 3" by simp_all
  have s1: "(if startswith t ''```json'' then slice t (Some 7) None
             else if startswith t ''```'' then slice t (Some 3) None else t) = s1"
  proof (cases "prefix ''```json'' t")
    case True
    then show ?thesis
      using slice_from [of t 7] by (simp only: s1_def lead_def startswith_prefix if_True l7) simp
  next
    case False
    then show ?thesis
      using slice_from [of t 3]
      by (cases "prefix ''```'' t")
         (simp_all only: s1_def lead_def startswith_prefix if_True if_False l3 list.size drop_0,
          simp_all add: numeral_3_eq_3)
  qed
  have trail: "suffix trail s1" by (simp add: trail_def)
  then obtain body where b: "s1 = body @ trail" by (auto simp: suffix_def)
  have "strip_fences t = body"
  proof (cases "suffix ''```'' s1")
    case True
    then have "trail = ''```''" by (simp add: trail_def)
    with b have "slice s1 None (Some (- 3)) = body"
      using slice_drop_last [of 3 s1] by simp
    with True show ?thesis by (simp add: strip_fences_def s1 Let_def endswith_suffix)
  next
    case False
    then have "trail = []" by (simp add: trail_def)
    with b False show ?thesis by (simp add: strip_fences_def s1 Let_def endswith_suffix)
  qed
  with t b have "t = lead @ strip_fences t @ trail" by simp
  then show ?thesis unfolding lead_def trail_def s1_def by blast
qed


lemma no_brace_pair:
  "CHR ''{'' \<notin> set s \<Longrightarrow> \<not> (\<exists>pre mid post. s = pre @ ''{'' @ mid @ ''}'' @ post)"
  by auto

text \<open>
  Claim C5, as amended. The raw response is trimmed first. Then one leading fence
  marker is removed: the seven characters of three backquotes followed by the
  lower-case hint \<open>json\<close>, or else the three backquotes alone; the comparison is
  case-sensitive, so any other hint stays in the text. Then one trailing fence
  marker of three backquotes is removed. If what remains holds an opening brace with
  a closing brace somewhere after it, the result is exactly the span from the first
  opening brace to the last closing brace; otherwise it is what remains, trimmed.
\<close>

theorem normalize_steps:
  "(\<exists>lead trail.
       str_strip raw = lead @ strip_fences (str_strip raw) @ trail
     \<and> lead = (if prefix ''```json'' (str_strip raw) then ''```json''
               else if prefix ''```'' (str_strip raw) then ''```'' else [])
     \<and> trail = (if suffix ''```'' (drop (length lead) (str_strip raw)) then ''```'' else []))
   \<and> ((\<exists>pre mid post. strip_fences (str_strip raw) = pre @ ''{'' @ mid @ ''}'' @ post) \<longrightarrow>
        (\<exists>pre mid post.
            strip_fences (str_strip raw) = pre @ ''{'' @ mid @ ''}'' @ post
          \<and> CHR ''{'' \<notin> set pre \<and> CHR ''}'' \<notin> set post
          \<and> normalize raw = ''{'' @ mid @ ''}''))
   \<and> (\<not> (\<exists>pre mid post. strip_fences (str_strip raw) = pre @ ''{'' @ mid @ ''}'' @ post) \<longrightarrow>
        normalize raw = str_strip (strip_fences (str_strip raw)))"
proof (intro conjI impI)
  show "\<exists>lead trail.
       str_strip raw = lead @ strip_fences (str_strip raw) @ trail
     \<and> lead = (if prefix ''```json'' (str_strip raw) then ''```json''
               else if prefix ''```'' (str_strip raw) then ''```'' else [])
     \<and> trail = (if suffix ''```'' (drop (length lead) (str_strip raw)) then ''```'' else [])"
    by (rule strip_fences_decomposition)
next
  assume "\<exists>pre mid post. strip_fences (str_strip raw) = pre @ ''{'' @ mid @ ''}'' @ post"
  then obtain pre mid post where d:
    "strip_fences (str_strip raw) = pre @ ''{'' @ mid @ ''}'' @ post"
    "CHR ''{'' \<notin> set pre" "CHR ''}'' \<notin> set post"
    using brace_pair_first_last by blast
  have "normalize raw = str_strip (''{'' @ mid @ ''}'')"
    unfolding normalize_def d(1) by (simp only: slice_braces_span [OF d(2,3)])
  then have "normalize raw = ''{'' @ mid @ ''}''" by (simp only: str_strip_braced)
  with d show "\<exists>pre mid post.
            strip_fences (str_strip raw) = pre @ ''{'' @ mid @ ''}'' @ post
          \<and> CHR ''{'' \<notin> set pre \<and> CHR ''}'' \<notin> set post
          \<and> normalize raw = ''{'' @ mid @ ''}''"
    by blast
next
  assume "\<not> (\<exists>pre mid post. strip_fences (str_strip raw) = pre @ ''{'' @ mid @ ''}'' @ post)"
  then have "slice_braces (strip_fences (str_strip raw)) = strip_fences (str_strip raw)"
    by (rule slice_braces_unchanged)
  then show "normalize raw = str_strip (strip_fences (str_strip raw))"
    by (simp add: normalize_def)
qed

theorem normalize_steps_witness:
  \<open>strip_fences (str_strip ''```json\<newline>{"a": 1}\<newline>```\<newline>'') = ''\<newline>'' @ ''{'' @ ''"a": 1'' @ ''}'' @ ''\<newline>''
   \<and> (\<exists>pre mid post.
         strip_fences (str_strip ''```json\<newline>{"a": 1}\<newline>```\<newline>'') = pre @ ''{'' @ mid @ ''}'' @ post
       \<and> CHR ''{'' \<notin> set pre \<and> CHR ''}'' \<notin> set post
       \<and> normalize ''```json\<newline>{"a": 1}\<newline>```\<newline>'' = ''{'' @ mid @ ''}'')
   \<and> \<not> (\<exists>pre mid post. strip_fences (str_strip ''  plain words  '') = pre @ ''{'' @ mid @ ''}'' @ post)
   \<and> normalize ''  plain words  '' = str_strip (strip_fences (str_strip ''  plain words  ''))\<close>
proof -
  have a: \<open>strip_fences (str_strip ''```json\<newline>{"a": 1}\<newline>```\<newline>'')
           = ''\<newline>'' @ ''{'' @ ''"a": 1'' @ ''}'' @ ''\<newline>''\<close>
    by code_simp
  then have pair: \<open>\<exists>pre mid post.
      strip_fences (str_strip ''```json\<newline>{"a": 1}\<newline>```\<newline>'') = pre @ ''{'' @ mid @ ''}'' @ post\<close>
    by blast
  have "strip_fences (str_strip ''  plain words  '') = ''plain words''"
    by code_simp
  then have none: "\<not> (\<exists>pre mid post.
      strip_fences (str_strip ''  plain words  '') = pre @ ''{'' @ mid @ ''}'' @ post)"
    by (intro no_brace_pair) simp
  show ?thesis
    using normalize_steps [of \<open>''```json\<newline>{"a": 1}\<newline>```\<newline>''\<close>]
      normalize_steps [of "''  plain words  ''"] a pair none
    by blast
qed

text \<open>
  The claim as stated fails on a fence whose hint is written in upper case: the hint
  stays in the result, while the same text with the lower-case hint loses it.
\<close>

theorem normalize_counterexample:
  "normalize ''```JSON\<newline>no object here```'' = ''JSON\<newline>no object here''
   \<and> normalize ''```json\<newline>no object here```'' = ''no object here''"
  by code_simp

section \<open>Properties of the second parse attempts\<close>

subsection \<open>The greedy object pattern finds the widest span\<close>

lemma dropWhile_upto: "x \<notin> set pre \<Longrightarrow> dropWhile (\<lambda>c. c \<noteq> x) (pre @ x # r) = x # r"
  by (induction pre) auto

lemma dropWhile_all: "x \<notin> set xs \<Longrightarrow> dropWhile (\<lambda>c. c \<noteq> x) (xs @ ys) = dropWhile (\<lambda>c. c \<noteq> x) ys"
  by (induction xs) auto

lemma spec_widest_span_pair:
  assumes "CHR ''{'' \<notin> set pre" and "CHR ''}'' \<notin> set post"
  shows "spec_widest_span (pre @ ''{'' @ mid @ ''}'' @ post) = Some (''{'' @ mid @ ''}'')"
proof -
  have a: "dropWhile (\<lambda>c. c \<noteq> CHR ''{'') (pre @ ''{'' @ mid @ ''}'' @ post)
           = ''{'' @ mid @ ''}'' @ post"
    using dropWhile_upto [OF assms(1)] by simp
  have "CHR ''}'' \<notin> set (rev post)" using assms(2) by simp
  then have "dropWhile (\<lambda>c. c \<noteq> CHR ''}'') (rev post @ CHR ''}'' # rev (''{'' @ mid))
           = CHR ''}'' # rev (''{'' @ mid)"
    by (rule dropWhile_upto)
  then have b: "dropWhile (\<lambda>c. c \<noteq> CHR ''}'') (rev (''{'' @ mid @ ''}'' @ post))
           = rev (''{'' @ mid @ ''}'')"
    by simp
  show ?thesis unfolding spec_widest_span_def Let_def a b by simp
qed

lemma spec_widest_span_none:
  assumes "\<not> (\<exists>pre mid post. s = pre @ ''{'' @ mid @ ''}'' @ post)"
  shows "spec_widest_span s = None"
proof (rule ccontr)
  assume "spec_widest_span s \<noteq> None"
  define t where "t = dropWhile (\<lambda>c. c \<noteq> CHR ''{'') s"
  define d where "d = dropWhile (\<lambda>c. c \<noteq> CHR ''}'') (rev t)"
  have "d \<noteq> []"
    using \<open>spec_widest_span s \<noteq> None\<close>
    by (auto simp: spec_widest_span_def Let_def t_def d_def split: if_splits)
  then have "\<not> (hd d \<noteq> CHR ''}'')" unfolding d_def by (rule hd_dropWhile)
  then have "hd d = CHR ''}''" by simp
  with \<open>d \<noteq> []\<close> have "CHR ''}'' \<in> set d" using hd_in_set [of d] by simp
  then have c: "CHR ''}'' \<in> set t" unfolding d_def by (auto dest: set_dropWhileD)
  then have "t \<noteq> []" by auto
  then have "\<not> (hd t \<noteq> CHR ''{'')" unfolding t_def by (rule hd_dropWhile)
  with \<open>t \<noteq> []\<close> obtain t' where t': "t = CHR ''{'' # t'" by (cases t) auto
  with c have "CHR ''}'' \<in> set t'" by auto
  then obtain m r where "t' = m @ CHR ''}'' # r" by (auto dest: split_list)
  moreover have "s = takeWhile (\<lambda>c. c \<noteq> CHR ''{'') s @ t" by (simp add: t_def)
  ultimately have "s = takeWhile (\<lambda>c. c \<noteq> CHR ''{'') s @ ''{'' @ m @ ''}'' @ r"
    using t' by simp
  with assms show False by blast
qed

lemma spec_widest_span_padding:
  assumes "\<forall>c \<in> set p. not_brace c" and "\<forall>c \<in> set q. not_brace c"
  shows "spec_widest_span (p @ s @ q) = spec_widest_span s"
proof -
  have p: "CHR ''{'' \<notin> set p" and q: "CHR ''{'' \<notin> set q" "CHR ''}'' \<notin> set (rev q)"
    using assms by (auto simp: not_brace_def)
  have a: "dropWhile (\<lambda>c. c \<noteq> CHR ''{'') (p @ s @ q) = dropWhile (\<lambda>c. c \<noteq> CHR ''{'') (s @ q)"
    using p by (rule dropWhile_all)
  show ?thesis
  proof (cases "CHR ''{'' \<in> set s")
    case True
    have b: "dropWhile (\<lambda>c. c \<noteq> CHR ''{'') (s @ q) = dropWhile (\<lambda>c. c \<noteq> CHR ''{'') s @ q"
      using True by (intro dropWhile_append1 [of "CHR ''{''"]) simp_all
    have c: "dropWhile (\<lambda>c. c \<noteq> CHR ''}'') (rev q @ rev (dropWhile (\<lambda>c. c \<noteq> CHR ''{'') s))
        = dropWhile (\<lambda>c. c \<noteq> CHR ''}'') (rev (dropWhile (\<lambda>c. c \<noteq> CHR ''{'') s))"
      using q(2) by (rule dropWhile_all)
    show ?thesis
      unfolding spec_widest_span_def Let_def a b rev_append c by (rule refl)
  next
    case False
    then have "CHR ''{'' \<notin> set (s @ q)" using q(1) by simp
    then have b: "dropWhile (\<lambda>c. c \<noteq> CHR ''{'') (s @ q) = []"
      by (simp only: dropWhile_eq_Nil_conv) blast
    have c: "dropWhile (\<lambda>c. c \<noteq> CHR ''{'') s = []"
      using False by (simp only: dropWhile_eq_Nil_conv) blast
    show ?thesis
      unfolding spec_widest_span_def Let_def a b c by (rule refl)
  qed
qed


lemma upt_Suc_Suc: "[0..<Suc (Suc n)] = 0 # map Suc [0..<Suc n]"
  by (simp only: map_Suc_upt) (rule upt_conv_Cons, simp)

lemma drops_suffixes: "map (\<lambda>n. drop n cs) (rev [0..<Suc (length cs)]) = suffixes cs"
proof (induction cs)
  case Nil
  then show ?case by simp
next
  case (Cons x cs)
  have "map (\<lambda>n. drop n (x # cs)) (rev [0..<Suc (Suc (length cs))])
        = map (\<lambda>n. drop n (x # cs)) (rev (map Suc [0..<Suc (length cs)])) @ [x # cs]"
    by (simp only: upt_Suc_Suc) simp
  also have "map (\<lambda>n. drop n (x # cs)) (rev (map Suc [0..<Suc (length cs)]))
        = map (\<lambda>n. drop n cs) (rev [0..<Suc (length cs)])"
    by (simp only: rev_map map_map comp_def drop_Suc_Cons)
  finally show ?case using Cons by simp
qed

lemma star_any: "rx_match (Star (\<lambda>c. isspace c \<or> \<not> isspace c)) cs = suffixes cs"
proof -
  have "takeWhile (\<lambda>c. isspace c \<or> \<not> isspace c) cs = cs" by simp
  then show ?thesis by (simp only: rx_match.simps drops_suffixes)
qed

lemma seq_chr_Cons: "rx_match (Seq (Chr p) r) (c # cs) = (if p c then rx_match r cs else [])"
  by simp

lemma seq_chr_Nil: "rx_match (Seq (Chr p) r) [] = []"
  by simp

lemma object_tail:
  "rx_match (Seq (Star (\<lambda>c. isspace c \<or> \<not> isspace c)) (Chr (\<lambda>c. c = CHR ''}''))) cs
   = closing_matches cs"
  by (simp only: rx_match.simps(4) star_any closing_matches_def)

lemma closing_matches_Nil: "closing_matches [] = []"
  by (simp add: closing_matches_def)

lemma closing_matches_Cons:
  "closing_matches (x # cs) = closing_matches cs @ (if x = CHR ''}'' then [cs] else [])"
  by (simp add: closing_matches_def)

lemma closing_matches_first:
  "case closing_matches cs of
     [] \<Rightarrow> CHR ''}'' \<notin> set cs
   | rest # others \<Rightarrow> \<exists>xs. cs = xs @ CHR ''}'' # rest \<and> CHR ''}'' \<notin> set rest"
proof (induction cs)
  case Nil
  then show ?case by (simp add: closing_matches_Nil)
next
  case (Cons x cs)
  show ?case
  proof (cases "closing_matches cs")
    case Nil
    with Cons show ?thesis by (auto simp: closing_matches_Cons)
  next
    case (Cons rest others)
    with Cons.IH obtain xs where "cs = xs @ CHR ''}'' # rest" "CHR ''}'' \<notin> set rest" by auto
    then have "x # cs = (x # xs) @ CHR ''}'' # rest" by simp
    with Cons \<open>CHR ''}'' \<notin> set rest\<close> show ?thesis
      by (auto simp add: closing_matches_Cons)
  qed
qed

lemma object_rx_Cons:
  "rx_match object_rx (c # cs) = (if c = CHR ''{'' then closing_matches cs else [])"
  unfolding object_rx_def by (simp only: seq_chr_Cons object_tail)

lemma object_rx_Nil: "rx_match object_rx [] = []"
  unfolding object_rx_def by (rule seq_chr_Nil)

lemma re_search_object_absent: "CHR ''}'' \<notin> set s \<Longrightarrow> re_search object_rx s = None"
proof (induction s)
  case Nil
  then show ?case by (simp add: object_rx_Nil)
next
  case (Cons c cs)
  have "closing_matches cs = []"
    using closing_matches_first [of cs] Cons.prems by (auto split: list.splits)
  with Cons show ?case by (simp add: object_rx_Cons)
qed

lemma spec_widest_span_skip:
  "c \<noteq> CHR ''{'' \<Longrightarrow> spec_widest_span (c # cs) = spec_widest_span cs"
  by (simp add: spec_widest_span_def)

lemma re_search_object: "re_search object_rx s = spec_widest_span s"
proof (induction s)
  case Nil
  then show ?case by (simp add: object_rx_Nil spec_widest_span_def)
next
  case (Cons c cs)
  show ?case
  proof (cases "c = CHR ''{''")
    case False
    with Cons show ?thesis by (simp add: object_rx_Cons spec_widest_span_skip)
  next
    case True
    show ?thesis
    proof (cases "closing_matches cs")
      case Nil
      then have absent: "CHR ''}'' \<notin> set cs" using closing_matches_first [of cs] by simp
      then have "\<not> (\<exists>pre mid post. c # cs = pre @ ''{'' @ mid @ ''}'' @ post)"
        using True by (auto simp: Cons_eq_append_conv)
      then have "spec_widest_span (c # cs) = None" by (rule spec_widest_span_none)
      with Nil True absent show ?thesis
        by (simp add: object_rx_Cons re_search_object_absent)
    next
      case (Cons rest others)
      with closing_matches_first [of cs] obtain xs where
        d: "cs = xs @ CHR ''}'' # rest" "CHR ''}'' \<notin> set rest" by auto
      have "spec_widest_span ([] @ ''{'' @ xs @ ''}'' @ rest) = Some (''{'' @ xs @ ''}'')"
        using d(2) by (intro spec_widest_span_pair) simp_all
      then have "spec_widest_span (c # cs) = Some (CHR ''{'' # xs @ ''}'')"
        using True d(1) by simp
      moreover have "take (Suc (length cs) - length rest) (c # cs) = CHR ''{'' # xs @ ''}''"
        using True d(1) by simp
      ultimately show ?thesis using Cons True by (simp add: object_rx_Cons)
    qed
  qed
qed


lemma isspace_not_brace: "isspace c \<Longrightarrow> not_brace c"
  by (auto simp: isspace_def not_brace_def)

lemma spec_widest_span_strip: "spec_widest_span (str_strip s) = spec_widest_span s"
proof -
  obtain before after where d: "s = before @ str_strip s @ after"
    "\<forall>c \<in> set before. isspace c" "\<forall>c \<in> set after. isspace c"
    using str_strip_decomposition by blast
  have "spec_widest_span (before @ str_strip s @ after) = spec_widest_span (str_strip s)"
    using d(2,3) by (intro spec_widest_span_padding) (auto dest: isspace_not_brace)
  with d(1) show ?thesis by simp
qed

lemma spec_widest_span_fences: "spec_widest_span (strip_fences t) = spec_widest_span t"
proof -
  obtain lead trail where d: "t = lead @ strip_fences t @ trail"
    "lead = (if prefix ''```json'' t then ''```json''
              else if prefix ''```'' t then ''```'' else [])"
    "trail = (if suffix ''```'' (drop (length lead) t) then ''```'' else [])"
    using strip_fences_decomposition by blast
  have "\<forall>c \<in> set lead. not_brace c" "\<forall>c \<in> set trail. not_brace c"
    unfolding d(2,3) by (auto simp: not_brace_def)
  then have "spec_widest_span (lead @ strip_fences t @ trail) = spec_widest_span (strip_fences t)"
    by (rule spec_widest_span_padding)
  with d(1) show ?thesis by simp
qed

lemma spec_widest_span_slice: "spec_widest_span (slice_braces s) = spec_widest_span s"
proof (cases "\<exists>pre mid post. s = pre @ ''{'' @ mid @ ''}'' @ post")
  case True
  then obtain pre mid post where d: "s = pre @ ''{'' @ mid @ ''}'' @ post"
    "CHR ''{'' \<notin> set pre" "CHR ''}'' \<notin> set post"
    using brace_pair_first_last by blast
  have "spec_widest_span ([] @ ''{'' @ mid @ ''}'' @ []) = Some (''{'' @ mid @ ''}'')"
    by (rule spec_widest_span_pair) simp_all
  then show ?thesis
    unfolding d(1) slice_braces_span [OF d(2,3)] spec_widest_span_pair [OF d(2,3)] by simp
next
  case False
  then show ?thesis by (simp add: slice_braces_unchanged)
qed

lemma spec_widest_span_normalize: "spec_widest_span (normalize raw) = spec_widest_span raw"
  by (simp add: normalize_def spec_widest_span_strip spec_widest_span_slice
      spec_widest_span_fences)

lemma normalize_is_span:
  assumes "spec_widest_span raw = Some matched"
  shows "normalize raw = matched"
proof -
  have inner: "spec_widest_span (strip_fences (str_strip raw)) = Some matched"
    using assms by (simp add: spec_widest_span_strip spec_widest_span_fences)
  then have "\<exists>pre mid post. strip_fences (str_strip raw) = pre @ ''{'' @ mid @ ''}'' @ post"
    using spec_widest_span_none [of "strip_fences (str_strip raw)"] by fastforce
  then obtain pre mid post where d:
    "strip_fences (str_strip raw) = pre @ ''{'' @ mid @ ''}'' @ post"
    "CHR ''{'' \<notin> set pre" "CHR ''}'' \<notin> set post"
    using brace_pair_first_last by blast
  have "matched = ''{'' @ mid @ ''}''"
    using inner unfolding d(1) spec_widest_span_pair [OF d(2,3)] by simp
  moreover have "normalize raw = str_strip (''{'' @ mid @ ''}'')"
    unfolding normalize_def d(1) by (simp only: slice_braces_span [OF d(2,3)])
  ultimately show ?thesis by (simp only: str_strip_braced)
qed

lemma dropWhile_same: "xs = [] \<or> \<not> P (hd xs) \<Longrightarrow> dropWhile P xs = xs"
  by (cases xs) auto

lemma str_strip_idempotent: "str_strip (str_strip s) = str_strip s"
proof -
  define d where "d = dropWhile isspace s"
  define e where "e = dropWhile isspace (rev d)"
  have s: "str_strip s = rev e" by (simp add: str_strip_def d_def e_def)
  have e_hd: "e = [] \<or> \<not> isspace (hd e)"
    unfolding e_def using hd_dropWhile [of isspace "rev d"] by blast
  have "rev e = [] \<or> \<not> isspace (hd (rev e))"
  proof (cases "e = []")
    case True
    then show ?thesis by simp
  next
    case False
    have "rev d = takeWhile isspace (rev d) @ e" by (simp add: e_def)
    then have "last (rev d) = last e" using False by (metis last_appendR)
    moreover have "d \<noteq> []" using False by (auto simp: e_def)
    ultimately have "hd d = last e" by (simp add: last_rev)
    moreover have "\<not> isspace (hd d)"
      unfolding d_def using \<open>d \<noteq> []\<close> hd_dropWhile [of isspace s] by (simp add: d_def)
    ultimately show ?thesis using False by (simp add: hd_rev)
  qed
  then have "dropWhile isspace (rev e) = rev e" by (rule dropWhile_same)
  moreover have "dropWhile isspace e = e" using e_hd by (rule dropWhile_same)
  ultimately have "str_strip (rev e) = rev e" by (simp add: str_strip_def)
  then show ?thesis by (simp add: s)
qed

lemma normalize_after_strip: "normalize (str_strip raw) = normalize raw"
  by (simp add: normalize_def str_strip_idempotent)

subsection \<open>Shape of a match of a pattern over a character class\<close>

lemma take_within_takeWhile:
  "n \<le> length (takeWhile p s) \<Longrightarrow> set (take n s) \<subseteq> set (takeWhile p s)"
proof -
  assume n: "n \<le> length (takeWhile p s)"
  have "take n s = take n (takeWhile p s @ dropWhile p s)" by simp
  also have "\<dots> = take n (takeWhile p s)" using n by (simp only: take_append) simp
  finally show ?thesis by (simp add: set_take_subset)
qed

lemma rx_match_consumed:
  assumes "rest \<in> set (rx_match r s)" and "rx_within P r"
  shows "\<exists>consumed. s = consumed @ rest \<and> (\<forall>c \<in> set consumed. P c)"
  using assms
proof (induction r arbitrary: s rest)
  case Eps
  then show ?case by simp
next
  case (Chr p)
  then show ?case by (cases s) (auto split: if_splits)
next
  case (Star p)
  from Star.prems(1) have "rest \<in> (\<lambda>n. drop n s) ` {0..<Suc (length (takeWhile p s))}"
    by (simp only: rx_match.simps set_map set_rev set_upt)
  then obtain n where "n \<in> {0..<Suc (length (takeWhile p s))}" "rest = drop n s"
    by (rule imageE)
  then have n: "n \<le> length (takeWhile p s)" "rest = drop n s" by simp_all
  have "\<forall>c \<in> set (take n s). P c"
    using take_within_takeWhile [OF n(1)] Star.prems(2) by (auto dest: set_takeWhileD)
  moreover have "s = take n s @ rest" by (simp add: n(2))
  ultimately show ?case by blast
next
  case (Seq a b)
  then obtain mid where mid: "mid \<in> set (rx_match a s)" "rest \<in> set (rx_match b mid)" by auto
  from Seq.IH(1) [OF mid(1)] Seq.prems(2) obtain c1 where
    c1: "s = c1 @ mid" "\<forall>c \<in> set c1. P c" by auto
  from Seq.IH(2) [OF mid(2)] Seq.prems(2) obtain c2 where
    c2: "mid = c2 @ rest" "\<forall>c \<in> set c2. P c" by auto
  have "s = (c1 @ c2) @ rest" "\<forall>c \<in> set (c1 @ c2). P c" using c1 c2 by auto
  then show ?case by blast
next
  case (Alt a b)
  then show ?case by auto
qed

lemma rx_within_anything: "rx_within (\<lambda>c. True) r"
  by (induction r) simp_all

lemma rx_match_suffix:
  assumes "rest \<in> set (rx_match r s)"
  shows "\<exists>consumed. s = consumed @ rest"
  using rx_match_consumed [OF assms rx_within_anything] by blast

lemma re_search_sound:
  assumes "re_search r s = Some m"
  shows "\<exists>pre rest. s = pre @ m @ rest \<and> rest \<in> set (rx_match r (m @ rest))"
  using assms
proof (induction s)
  case Nil
  then obtain rest others where r: "rx_match r [] = rest # others" "m = []"
    by (auto split: list.splits)
  then have "rest \<in> set (rx_match r [])" by simp
  from rx_match_suffix [OF this] obtain consumed where "[] = consumed @ rest" by blast
  then have "rest = []" by simp
  with r show ?case by auto
next
  case (Cons c cs)
  show ?case
  proof (cases "rx_match r (c # cs)")
    case Nil
    with Cons.prems have "re_search r cs = Some m" by simp
    with Cons.IH obtain pre rest where "cs = pre @ m @ rest" "rest \<in> set (rx_match r (m @ rest))"
      by blast
    then have "c # cs = (c # pre) @ m @ rest" by simp
    with \<open>rest \<in> set (rx_match r (m @ rest))\<close> show ?thesis by blast
  next
    case (Cons rest others)
    then have mem: "rest \<in> set (rx_match r (c # cs))" by simp
    then obtain consumed where k: "c # cs = consumed @ rest" using rx_match_suffix by blast
    then have "length (c # cs) = length consumed + length rest" by (metis length_append)
    then have "Suc (length cs) - length rest = length consumed" by simp
    then have "take (Suc (length cs) - length rest) (c # cs) = consumed"
      by (simp only: k) simp
    with Cons Cons.prems have "m = consumed" by simp
    with k mem have "c # cs = [] @ m @ rest" "rest \<in> set (rx_match r (m @ rest))" by simp_all
    then show ?thesis by blast
  qed
qed

lemma lit_ci_within:
  assumes "\<forall>c \<in> set lit. lower_char CHR ''{'' \<noteq> lower_char c \<and> lower_char CHR ''}'' \<noteq> lower_char c"
  shows "rx_within not_brace (lit_ci lit)"
  using assms
proof (induction lit)
  case Nil
  then show ?case by simp
next
  case (Cons a lit)
  have "not_brace c" if "lower_char c = lower_char a" for c
    using that Cons.prems by (auto simp: not_brace_def)
  with Cons show ?case by simp
qed

lemma is_match_body_within: "rx_within not_brace is_match_body"
proof -
  have b: "lower_char CHR ''{'' = CHR ''{''" "lower_char CHR ''}'' = CHR ''}''"
    by (simp_all add: lower_char_def is_upper_def)
  have key: \<open>rx_within not_brace (lit_ci ''"is_match"'')\<close>
    by (rule lit_ci_within) (simp add: b lower_char_def is_upper_def)
  have t: "rx_within not_brace (lit_ci ''true'')"
    by (rule lit_ci_within) (simp add: b lower_char_def is_upper_def)
  have f: "rx_within not_brace (lit_ci ''false'')"
    by (rule lit_ci_within) (simp add: b lower_char_def is_upper_def)
  have nb: "rx_within not_brace (Star not_brace)" by simp
  have sp: "rx_within not_brace (Star isspace)" by (simp add: isspace_not_brace)
  have colon: "rx_within not_brace (Chr (\<lambda>c. c = CHR '':''))" by (simp add: not_brace_def)
  show ?thesis
    unfolding is_match_body_def
    by (simp only: rx_within.simps(4,5) key t f nb sp colon simp_thms)
qed

lemma is_match_rx_shape:
  assumes "rest \<in> set (rx_match is_match_rx s)"
  shows "\<exists>mid. s = ''{'' @ mid @ ''}'' @ rest \<and> (\<forall>c \<in> set mid. not_brace c)"
proof -
  obtain c cs where s: "s = c # cs"
    using assms unfolding is_match_rx_def by (cases s) (simp_all only: seq_chr_Nil, simp_all)
  have c: "c = CHR ''{''" and
    "rest \<in> set (rx_match (Seq is_match_body (Chr (\<lambda>c. c = CHR ''}''))) cs)"
    using assms unfolding is_match_rx_def s seq_chr_Cons by (simp_all split: if_splits)
  then obtain m where m: "m \<in> set (rx_match is_match_body cs)"
    "rest \<in> set (rx_match (Chr (\<lambda>c. c = CHR ''}'')) m)" by auto
  from m(2) have m': "m = CHR ''}'' # rest" by (cases m) (auto split: if_splits)
  from rx_match_consumed [OF m(1) is_match_body_within] obtain mid where
    "cs = mid @ m" "\<forall>c \<in> set mid. not_brace c" by blast
  with s c m' show ?thesis by auto
qed

lemma re_search_is_match_shape:
  assumes "re_search is_match_rx s = Some m"
  shows "\<exists>pre mid post. s = pre @ m @ post \<and> m = ''{'' @ mid @ ''}''
           \<and> CHR ''{'' \<notin> set mid \<and> CHR ''}'' \<notin> set mid"
proof -
  from re_search_sound [OF assms] obtain pre rest where
    d: "s = pre @ m @ rest" "rest \<in> set (rx_match is_match_rx (m @ rest))" by blast
  from is_match_rx_shape [OF d(2)] obtain mid where
    e: "m @ rest = ''{'' @ mid @ ''}'' @ rest" "\<forall>c \<in> set mid. not_brace c" by blast
  from e(1) have "m @ rest = (''{'' @ mid @ ''}'') @ rest" by simp
  then have "m = ''{'' @ mid @ ''}''" by (simp only: append_same_eq)
  with d(1) e(2) show ?thesis by (auto simp: not_brace_def)
qed

subsection \<open>The words a pattern matches\<close>

lemma rx_match_lang:
  "rest \<in> set (rx_match r s) \<longleftrightarrow> (\<exists>w \<in> rx_lang r. s = w @ rest)"
proof (induction r arbitrary: s rest)
  case Eps
  show ?case by auto
next
  case (Chr p)
  show ?case by (cases s) auto
next
  case (Star p)
  show ?case
  proof
    assume "rest \<in> set (rx_match (Star p) s)"
    then have "rest \<in> (\<lambda>n. drop n s) ` {0..<Suc (length (takeWhile p s))}"
      by (simp only: rx_match.simps set_map set_rev set_upt)
    then obtain n where "n \<in> {0..<Suc (length (takeWhile p s))}" "rest = drop n s"
      by (rule imageE)
    then have n: "n \<le> length (takeWhile p s)" "rest = drop n s" by simp_all
    have "\<forall>c \<in> set (take n s). p c"
      using take_within_takeWhile [OF n(1)] by (auto dest: set_takeWhileD)
    then have "take n s \<in> rx_lang (Star p)" by simp
    moreover have "s = take n s @ rest" by (simp add: n(2))
    ultimately show "\<exists>w \<in> rx_lang (Star p). s = w @ rest" by blast
  next
    assume "\<exists>w \<in> rx_lang (Star p). s = w @ rest"
    then obtain w where w: "\<forall>c \<in> set w. p c" "s = w @ rest" by auto
    have "takeWhile p s = w @ takeWhile p rest"
      unfolding w(2) using w(1) by (simp add: takeWhile_append2)
    then have "length w \<le> length (takeWhile p s)" by simp
    then have "length w \<in> {0..<Suc (length (takeWhile p s))}" by simp
    moreover have "rest = drop (length w) s" by (simp add: w(2))
    ultimately have "rest \<in> (\<lambda>n. drop n s) ` {0..<Suc (length (takeWhile p s))}"
      by (rule rev_image_eqI)
    then show "rest \<in> set (rx_match (Star p) s)"
      by (simp only: rx_match.simps set_map set_rev set_upt)
  qed
next
  case (Seq a b)
  show ?case
  proof
    assume "rest \<in> set (rx_match (Seq a b) s)"
    then obtain mid where mid: "mid \<in> set (rx_match a s)" "rest \<in> set (rx_match b mid)"
      by auto
    from mid(1) Seq.IH(1) obtain u where u: "u \<in> rx_lang a" "s = u @ mid" by blast
    from mid(2) Seq.IH(2) obtain v where v: "v \<in> rx_lang b" "mid = v @ rest" by blast
    have "u @ v \<in> rx_lang (Seq a b)" using u(1) v(1) by auto
    moreover have "s = (u @ v) @ rest" using u(2) v(2) by simp
    ultimately show "\<exists>w \<in> rx_lang (Seq a b). s = w @ rest" by blast
  next
    assume "\<exists>w \<in> rx_lang (Seq a b). s = w @ rest"
    then obtain u v where uv: "u \<in> rx_lang a" "v \<in> rx_lang b" "s = (u @ v) @ rest" by auto
    have "v @ rest \<in> set (rx_match a s)" using Seq.IH(1) uv(1,3) by auto
    moreover have "rest \<in> set (rx_match b (v @ rest))" using Seq.IH(2) uv(2) by auto
    ultimately show "rest \<in> set (rx_match (Seq a b) s)" by auto
  qed
next
  case (Alt a b)
  show ?case using Alt.IH by auto
qed

lemma lit_ci_lang: "w \<in> rx_lang (lit_ci lit) \<longleftrightarrow> map lower_char w = map lower_char lit"
proof (induction lit arbitrary: w)
  case Nil
  show ?case by simp
next
  case (Cons a lit)
  show ?case
  proof
    assume "w \<in> rx_lang (lit_ci (a # lit))"
    then obtain x v where "w = [x] @ v" "lower_char x = lower_char a" "v \<in> rx_lang (lit_ci lit)"
      by auto
    then show "map lower_char w = map lower_char (a # lit)" using Cons.IH by simp
  next
    assume m: "map lower_char w = map lower_char (a # lit)"
    then obtain x v where w: "w = x # v" by (cases w) auto
    with m have "lower_char x = lower_char a" "map lower_char v = map lower_char lit" by simp_all
    then have "[x] \<in> rx_lang (Chr (\<lambda>x. lower_char x = lower_char a))" "v \<in> rx_lang (lit_ci lit)"
      using Cons.IH by simp_all
    then have "[x] @ v \<in> rx_lang (lit_ci (a # lit))"
      unfolding lit_ci.simps rx_lang.simps by blast
    then show "w \<in> rx_lang (lit_ci (a # lit))" by (simp add: w)
  qed
qed

lemma lower_literals:
  \<open>map lower_char ''"is_match"'' = ''"is_match"''\<close>
  "map lower_char ''true'' = ''true''"
  "map lower_char ''false'' = ''false''"
  by (simp_all add: lower_char_def is_upper_def)

lemma seq_lang: "w \<in> rx_lang (Seq a b) \<longleftrightarrow> (\<exists>u v. w = u @ v \<and> u \<in> rx_lang a \<and> v \<in> rx_lang b)"
  by auto

lemma chr_lang: "w \<in> rx_lang (Chr (\<lambda>c. c = x)) \<longleftrightarrow> w = [x]"
  by auto

lemma star_lang: "w \<in> rx_lang (Star p) \<longleftrightarrow> (\<forall>c \<in> set w. p c)"
  by simp

lemma value_lang:
  "w \<in> rx_lang (Alt (lit_ci ''true'') (lit_ci ''false''))
   \<longleftrightarrow> map lower_char w = ''true'' \<or> map lower_char w = ''false''"
  by (simp only: rx_lang.simps Un_iff lit_ci_lang lower_literals)

lemma seq_langI: "u \<in> rx_lang a \<Longrightarrow> v \<in> rx_lang b \<Longrightarrow> u @ v \<in> rx_lang (Seq a b)"
  by auto

lemma seq_langE:
  assumes "w \<in> rx_lang (Seq a b)"
  obtains u v where "w = u @ v" "u \<in> rx_lang a" "v \<in> rx_lang b"
  using assms by auto

lemma is_match_object_lang:
  assumes b: "\<forall>c \<in> set before. c \<noteq> CHR ''{'' \<and> c \<noteq> CHR ''}''"
    and k: \<open>map lower_char key = ''"is_match"''\<close>
    and g: "\<forall>c \<in> set gap1. isspace c" "\<forall>c \<in> set gap2. isspace c"
    and v: "map lower_char val = ''true'' \<or> map lower_char val = ''false''"
    and a: "\<forall>c \<in> set after. c \<noteq> CHR ''{'' \<and> c \<noteq> CHR ''}''"
  shows "''{'' @ before @ key @ gap1 @ '':'' @ gap2 @ val @ after @ ''}'' \<in> rx_lang is_match_rx"
proof -
  have l1: "before \<in> rx_lang (Star not_brace)" "after \<in> rx_lang (Star not_brace)"
    using b a by (simp_all add: not_brace_def)
  have l2: \<open>key \<in> rx_lang (lit_ci ''"is_match"'')\<close>
    using k by (simp only: lit_ci_lang lower_literals)
  have l3: "gap1 \<in> rx_lang (Star isspace)" "gap2 \<in> rx_lang (Star isspace)"
    using g by simp_all
  have l4: "'':'' \<in> rx_lang (Chr (\<lambda>c. c = CHR '':''))" by (simp only: chr_lang)
  have l6: "val \<in> rx_lang (Alt (lit_ci ''true'') (lit_ci ''false''))"
    using v by (simp only: value_lang)
  have "before @ key @ gap1 @ '':'' @ gap2 @ val @ after \<in> rx_lang is_match_body"
    unfolding is_match_body_def
    by (intro seq_langI l1 l2 l3 l4 l6)
  moreover have "''{'' \<in> rx_lang (Chr (\<lambda>c. c = CHR ''{''))" "''}'' \<in> rx_lang (Chr (\<lambda>c. c = CHR ''}''))"
    by (simp_all only: chr_lang)
  ultimately have "''{'' @ (before @ key @ gap1 @ '':'' @ gap2 @ val @ after) @ ''}''
                   \<in> rx_lang is_match_rx"
    unfolding is_match_rx_def by (intro seq_langI)
  then show ?thesis by (simp only: append_assoc)
qed

lemma is_match_rx_lang: "w \<in> rx_lang is_match_rx \<longleftrightarrow> is_match_object w"
proof
  assume "w \<in> rx_lang is_match_rx"
  then obtain u0 v0 where a0: "w = u0 @ v0" "u0 \<in> rx_lang (Chr (\<lambda>c. c = CHR ''{''))"
    "v0 \<in> rx_lang (Seq is_match_body (Chr (\<lambda>c. c = CHR ''}'')))"
    unfolding is_match_rx_def by (rule seq_langE)
  from a0(3) obtain body u8 where a8: "v0 = body @ u8" "body \<in> rx_lang is_match_body"
    "u8 \<in> rx_lang (Chr (\<lambda>c. c = CHR ''}''))"
    by (rule seq_langE)
  from a8(2) obtain u1 v1 where a1: "body = u1 @ v1" "u1 \<in> rx_lang (Star not_brace)"
    \<open>v1 \<in> rx_lang (Seq (lit_ci ''"is_match"'')
         (Seq (Star isspace)
           (Seq (Chr (\<lambda>c. c = CHR '':''))
             (Seq (Star isspace)
               (Seq (Alt (lit_ci ''true'') (lit_ci ''false'')) (Star not_brace))))))\<close>
    unfolding is_match_body_def by (rule seq_langE)
  from a1(3) obtain u2 v2 where a2: "v1 = u2 @ v2" \<open>u2 \<in> rx_lang (lit_ci ''"is_match"'')\<close>
    "v2 \<in> rx_lang (Seq (Star isspace)
           (Seq (Chr (\<lambda>c. c = CHR '':''))
             (Seq (Star isspace)
               (Seq (Alt (lit_ci ''true'') (lit_ci ''false'')) (Star not_brace)))))"
    by (rule seq_langE)
  from a2(3) obtain u3 v3 where a3: "v2 = u3 @ v3" "u3 \<in> rx_lang (Star isspace)"
    "v3 \<in> rx_lang (Seq (Chr (\<lambda>c. c = CHR '':''))
             (Seq (Star isspace)
               (Seq (Alt (lit_ci ''true'') (lit_ci ''false'')) (Star not_brace))))"
    by (rule seq_langE)
  from a3(3) obtain u4 v4 where a4: "v3 = u4 @ v4" "u4 \<in> rx_lang (Chr (\<lambda>c. c = CHR '':''))"
    "v4 \<in> rx_lang (Seq (Star isspace)
               (Seq (Alt (lit_ci ''true'') (lit_ci ''false'')) (Star not_brace)))"
    by (rule seq_langE)
  from a4(3) obtain u5 v5 where a5: "v4 = u5 @ v5" "u5 \<in> rx_lang (Star isspace)"
    "v5 \<in> rx_lang (Seq (Alt (lit_ci ''true'') (lit_ci ''false'')) (Star not_brace))"
    by (rule seq_langE)
  from a5(3) obtain u6 u7 where a6: "v5 = u6 @ u7"
    "u6 \<in> rx_lang (Alt (lit_ci ''true'') (lit_ci ''false''))" "u7 \<in> rx_lang (Star not_brace)"
    by (rule seq_langE)
  have w: "w = ''{'' @ u1 @ u2 @ u3 @ '':'' @ u5 @ u6 @ u7 @ ''}''"
    using a0(1,2) a8(1,3) a1(1) a2(1) a3(1) a4(1,2) a5(1) a6(1) by (simp add: chr_lang)
  have b: "\<forall>c \<in> set u1. c \<noteq> CHR ''{'' \<and> c \<noteq> CHR ''}''"
    "\<forall>c \<in> set u7. c \<noteq> CHR ''{'' \<and> c \<noteq> CHR ''}''"
    using a1(2) a6(3) by (simp_all add: not_brace_def)
  have k: \<open>map lower_char u2 = ''"is_match"''\<close>
    using a2(2) by (simp only: lit_ci_lang lower_literals)
  have g: "\<forall>c \<in> set u3. isspace c" "\<forall>c \<in> set u5. isspace c"
    using a3(2) a5(2) by simp_all
  have v: "map lower_char u6 = ''true'' \<or> map lower_char u6 = ''false''"
    using a6(2) by (simp only: value_lang)
  show "is_match_object w"
    unfolding is_match_object_def
    by (intro exI conjI, rule w, rule b(1), rule k, rule g(1), rule g(2), rule v, rule b(2))
next
  assume "is_match_object w"
  then show "w \<in> rx_lang is_match_rx"
    unfolding is_match_object_def
    apply (elim exE conjE)
    apply hypsubst
    apply (rule is_match_object_lang; assumption)
    done
qed

lemma re_search_None:
  "re_search r s = None \<longleftrightarrow> (\<forall>t. suffix t s \<longrightarrow> rx_match r t = [])"
proof (induction s)
  case Nil
  show ?case by (simp split: list.split)
next
  case (Cons c cs)
  show ?case
  proof (cases "rx_match r (c # cs)")
    case Nil
    then have "re_search r (c # cs) = re_search r cs" by simp
    also have "\<dots> = None \<longleftrightarrow> (\<forall>t. suffix t cs \<longrightarrow> rx_match r t = [])" by (rule Cons.IH)
    also have "\<dots> \<longleftrightarrow> (\<forall>t. suffix t (c # cs) \<longrightarrow> rx_match r t = [])"
      using Nil by (auto simp: suffix_Cons)
    finally show ?thesis .
  next
    case (Cons rest others)
    then have "re_search r (c # cs) \<noteq> None" by simp
    moreover have "suffix (c # cs) (c # cs)" "rx_match r (c # cs) \<noteq> []" using Cons by simp_all
    ultimately show ?thesis by blast
  qed
qed

lemma re_search_leftmost:
  assumes "re_search r s = Some m"
  shows "\<exists>pre rest. s = pre @ m @ rest \<and> rest \<in> set (rx_match r (m @ rest))
           \<and> (\<forall>pre' t. s = pre' @ t \<and> length pre' < length pre \<longrightarrow> rx_match r t = [])"
  using assms
proof (induction s)
  case Nil
  from re_search_sound [OF Nil] obtain pre rest where
    "[] = pre @ m @ rest" "rest \<in> set (rx_match r (m @ rest))" by blast
  then have "[] = [] @ m @ rest" "rest \<in> set (rx_match r (m @ rest))" by simp_all
  then show ?case by (intro exI [of _ "[]"] exI [of _ rest]) simp
next
  case (Cons c cs)
  show ?case
  proof (cases "rx_match r (c # cs)")
    case Nil
    with Cons.prems have "re_search r cs = Some m" by simp
    with Cons.IH obtain pre rest where d: "cs = pre @ m @ rest"
      "rest \<in> set (rx_match r (m @ rest))"
      "\<forall>pre' t. cs = pre' @ t \<and> length pre' < length pre \<longrightarrow> rx_match r t = []"
      by blast
    have "rx_match r t = []" if "c # cs = pre' @ t" "length pre' < length (c # pre)" for pre' t
    proof (cases pre')
      case Nil
      with that(1) \<open>rx_match r (c # cs) = []\<close> show ?thesis by simp
    next
      case (Cons x xs)
      with that have "cs = xs @ t" "length xs < length pre" by simp_all
      with d(3) show ?thesis by blast
    qed
    moreover have "c # cs = (c # pre) @ m @ rest" using d(1) by simp
    ultimately show ?thesis using d(2) by blast
  next
    case (Cons rest others)
    from re_search_sound [OF Cons.prems] obtain pre rest' where
      e: "c # cs = pre @ m @ rest'" "rest' \<in> set (rx_match r (m @ rest'))" by blast
    from Cons have mem: "rest \<in> set (rx_match r (c # cs))" by simp
    then obtain consumed where k: "c # cs = consumed @ rest" using rx_match_suffix by blast
    then have "length (c # cs) = length consumed + length rest" by (metis length_append)
    then have "Suc (length cs) - length rest = length consumed" by simp
    then have "take (Suc (length cs) - length rest) (c # cs) = consumed"
      by (simp only: k) simp
    with Cons Cons.prems have "m = consumed" by simp
    with k mem have "c # cs = [] @ m @ rest" "rest \<in> set (rx_match r (m @ rest))" by simp_all
    then show ?thesis by (intro exI [of _ "[]"] exI [of _ rest]) simp
  qed
qed

lemma is_match_object_at:
  "rx_match is_match_rx t \<noteq> [] \<longleftrightarrow> (\<exists>m post. t = m @ post \<and> is_match_object m)"
proof
  assume "rx_match is_match_rx t \<noteq> []"
  then obtain rest where "rest \<in> set (rx_match is_match_rx t)" by (cases "rx_match is_match_rx t") auto
  then obtain w where "w \<in> rx_lang is_match_rx" "t = w @ rest" unfolding rx_match_lang by blast
  then show "\<exists>m post. t = m @ post \<and> is_match_object m" unfolding is_match_rx_lang by blast
next
  assume "\<exists>m post. t = m @ post \<and> is_match_object m"
  then obtain m post where "t = m @ post" "m \<in> rx_lang is_match_rx"
    unfolding is_match_rx_lang by blast
  then have "post \<in> set (rx_match is_match_rx t)" unfolding rx_match_lang by blast
  then show "rx_match is_match_rx t \<noteq> []" by auto
qed

lemma is_match_object_flat:
  assumes "is_match_object m"
  shows "\<exists>mid. m = ''{'' @ mid @ ''}'' \<and> CHR ''}'' \<notin> set mid"
proof -
  from assms have "m \<in> rx_lang is_match_rx" by (simp only: is_match_rx_lang)
  then have "[] \<in> set (rx_match is_match_rx (m @ []))" unfolding rx_match_lang by blast
  from is_match_rx_shape [OF this] obtain mid where
    "m @ [] = ''{'' @ mid @ ''}'' @ []" "\<forall>c \<in> set mid. not_brace c" by blast
  then have "m = ''{'' @ mid @ ''}''" "CHR ''}'' \<notin> set mid" by (auto simp: not_brace_def)
  then show ?thesis by blast
qed

lemma first_occurrence_unique:
  assumes "xs @ x # ys = xs' @ x # ys'" "x \<notin> set xs" "x \<notin> set xs'"
  shows "xs = xs'"
proof -
  have "takeWhile (\<lambda>c. c \<noteq> x) (xs @ x # ys) = xs"
    using assms(2) by (induction xs) auto
  moreover have "takeWhile (\<lambda>c. c \<noteq> x) (xs' @ x # ys') = xs'"
    using assms(3) by (induction xs') auto
  ultimately show ?thesis using assms(1) by simp
qed

lemma is_match_object_unique:
  assumes "is_match_object m" "is_match_object m'" "m @ post = m' @ post'"
  shows "m = m'"
proof -
  from is_match_object_flat [OF assms(1)] obtain mid where
    m: "m = ''{'' @ mid @ ''}''" "CHR ''}'' \<notin> set mid" by blast
  from is_match_object_flat [OF assms(2)] obtain mid' where
    m': "m' = ''{'' @ mid' @ ''}''" "CHR ''}'' \<notin> set mid'" by blast
  from assms(3) have "mid @ CHR ''}'' # post = mid' @ CHR ''}'' # post'" by (simp add: m m')
  then have "mid = mid'" using m(2) m'(2) by (rule first_occurrence_unique)
  then show ?thesis by (simp add: m m')
qed

lemma re_search_is_match_leftmost:
  "re_search is_match_rx s = Some m \<longleftrightarrow> leftmost_is_match_object s m"
proof
  assume "re_search is_match_rx s = Some m"
  from re_search_leftmost [OF this] obtain pre rest where d: "s = pre @ m @ rest"
    "rest \<in> set (rx_match is_match_rx (m @ rest))"
    "\<forall>pre' t. s = pre' @ t \<and> length pre' < length pre \<longrightarrow> rx_match is_match_rx t = []"
    by blast
  from d(2) obtain w where w: "w \<in> rx_lang is_match_rx" "m @ rest = w @ rest"
    unfolding rx_match_lang by blast
  then have obj: "is_match_object m" by (simp add: is_match_rx_lang)
  have "length pre \<le> length pre'" if "s = pre' @ m' @ post'" "is_match_object m'" for pre' m' post'
  proof (rule ccontr)
    assume "\<not> length pre \<le> length pre'"
    then have "length pre' < length pre" by simp
    with d(3) that(1) have "rx_match is_match_rx (m' @ post') = []" by blast
    moreover have "rx_match is_match_rx (m' @ post') \<noteq> []"
      unfolding is_match_object_at using that(2) by blast
    ultimately show False by simp
  qed
  with d(1) obj show "leftmost_is_match_object s m"
    unfolding leftmost_is_match_object_def by blast
next
  assume "leftmost_is_match_object s m"
  then obtain pre post where l: "s = pre @ m @ post" "is_match_object m"
    "\<forall>pre' m' post'. s = pre' @ m' @ post' \<and> is_match_object m' \<longrightarrow> length pre \<le> length pre'"
    unfolding leftmost_is_match_object_def by blast
  have "rx_match is_match_rx (m @ post) \<noteq> []" unfolding is_match_object_at using l(2) by blast
  moreover have "suffix (m @ post) s" using l(1) by (simp add: suffix_def)
  ultimately have "re_search is_match_rx s \<noteq> None" unfolding re_search_None by blast
  then obtain m2 where s2: "re_search is_match_rx s = Some m2" by blast
  from re_search_leftmost [OF this] obtain pre2 rest2 where d: "s = pre2 @ m2 @ rest2"
    "rest2 \<in> set (rx_match is_match_rx (m2 @ rest2))"
    "\<forall>pre' t. s = pre' @ t \<and> length pre' < length pre2 \<longrightarrow> rx_match is_match_rx t = []"
    by blast
  from d(2) obtain w where w: "w \<in> rx_lang is_match_rx" "m2 @ rest2 = w @ rest2"
    unfolding rx_match_lang by blast
  then have obj2: "is_match_object m2" by (simp add: is_match_rx_lang)
  have a: "length pre \<le> length pre2" using l(3) d(1) obj2 by blast
  have b: "length pre2 \<le> length pre"
  proof (rule ccontr)
    assume "\<not> length pre2 \<le> length pre"
    then have "length pre < length pre2" by simp
    with d(3) l(1) have "rx_match is_match_rx (m @ post) = []" by blast
    with \<open>rx_match is_match_rx (m @ post) \<noteq> []\<close> show False by simp
  qed
  from a b have "length pre = length pre2" by simp
  with l(1) d(1) have "pre = pre2 \<and> m @ post = m2 @ rest2" by (metis append_eq_append_conv)
  then have "m = m2" using is_match_object_unique [OF l(2) obj2] by blast
  with s2 show "re_search is_match_rx s = Some m" by simp
qed

lemma re_search_is_match_none:
  "re_search is_match_rx s = None
   \<longleftrightarrow> \<not> (\<exists>pre m post. s = pre @ m @ post \<and> is_match_object m)"
proof -
  have "re_search is_match_rx s = None \<longleftrightarrow> (\<forall>t. suffix t s \<longrightarrow> rx_match is_match_rx t = [])"
    by (rule re_search_None)
  also have "\<dots> \<longleftrightarrow> (\<forall>pre t. s = pre @ t \<longrightarrow> \<not> (\<exists>m post. t = m @ post \<and> is_match_object m))"
    unfolding suffix_def is_match_object_at [symmetric] by blast
  also have "\<dots> \<longleftrightarrow> \<not> (\<exists>pre m post. s = pre @ m @ post \<and> is_match_object m)"
    by blast
  finally show ?thesis .
qed

subsection \<open>The second attempts of the two paths\<close>

lemma parse_profile_retry:
  assumes "loads ext (normalize response) = Inl (JSONDecodeError m)"
  shows "parse_profile ext (normalize (str_strip response))
        = (case spec_widest_span response of
             None \<Rightarrow> Inl (JSONDecodeError ''No JSON object found: line 1 column 1 (char 0)'')
           | Some matched \<Rightarrow> loads ext matched)"
  using assms
  by (simp add: parse_profile_def normalize_after_strip re_search_object
      spec_widest_span_normalize)

text \<open>
  In the profile path the span found is the normalized text itself whenever a span
  exists, so the second attempt parses the text whose parse has just failed.
\<close>

lemma profile_second_attempt_repeats:
  assumes "loads ext (normalize response) = Inl (JSONDecodeError m)"
  shows "\<exists>m'. parse_profile ext (normalize (str_strip response)) = Inl (JSONDecodeError m')"
proof (cases "spec_widest_span response")
  case None
  with parse_profile_retry [OF assms] show ?thesis by simp
next
  case (Some matched)
  then have "normalize response = matched" by (rule normalize_is_span)
  with parse_profile_retry [OF assms] Some assms show ?thesis by simp
qed

lemma parse_verdict_retry:
  assumes "loads ext (normalize response) = Inl (JSONDecodeError m)"
  shows "parse_verdict ext response
        = (case re_search is_match_rx response of
             None \<Rightarrow> Inr (keyword_verdict response)
           | Some matched \<Rightarrow>
               (case loads ext matched of
                  Inr result \<Rightarrow> Inr result
                | Inl e \<Rightarrow> Inr (keyword_verdict response)))"
  using assms
  by (simp add: parse_verdict_def regex_verdict_def split: option.split sum.split)

text \<open>
  Claim C3, as amended. Let the direct parse of the normalized response raise
  \<open>JSONDecodeError\<close>. In the profile path the second attempt searches the normalized
  text, not the original one, with the greedy pattern; the span it finds is the span
  from the first opening brace to the last closing brace of the original response,
  and it is parsed when it exists, a parse error being raised otherwise. In the
  verdict path the second attempt searches the original response with the
  \<open>"is_match"\<close> pattern. What that search finds is the leftmost flat object of the
  response that holds an \<open>"is_match"\<close> key, a colon and the value true or false, in
  any letter case, with nothing but whitespace around the colon; it finds nothing
  exactly when the response has no such object. Exactly that object is parsed and
  the parsed value returned; the keyword verdict is returned when its parse raises
  or when there is no such object.
\<close>

theorem second_parse_attempts:
  assumes failed: "loads ext (normalize response) = Inl (JSONDecodeError m)"
  shows "re_search object_rx (normalize (str_strip response)) = spec_widest_span response
    \<and> parse_profile ext (normalize (str_strip response))
        = (case spec_widest_span response of
             None \<Rightarrow> Inl (JSONDecodeError ''No JSON object found: line 1 column 1 (char 0)'')
           | Some matched \<Rightarrow> loads ext matched)
    \<and> (\<forall>matched. re_search is_match_rx response = Some matched
          \<longleftrightarrow> leftmost_is_match_object response matched)
    \<and> (re_search is_match_rx response = None
          \<longleftrightarrow> \<not> (\<exists>pre matched post. response = pre @ matched @ post \<and> is_match_object matched))
    \<and> (\<forall>matched. leftmost_is_match_object response matched \<longrightarrow>
          parse_verdict ext response
          = (case loads ext matched of
               Inr result \<Rightarrow> Inr result
             | Inl e \<Rightarrow> Inr (keyword_verdict response)))
    \<and> (\<not> (\<exists>pre matched post. response = pre @ matched @ post \<and> is_match_object matched) \<longrightarrow>
          parse_verdict ext response = Inr (keyword_verdict response))"
proof (intro conjI allI impI)
  show "re_search object_rx (normalize (str_strip response)) = spec_widest_span response"
    by (simp add: normalize_after_strip re_search_object spec_widest_span_normalize)
  show "parse_profile ext (normalize (str_strip response))
        = (case spec_widest_span response of
             None \<Rightarrow> Inl (JSONDecodeError ''No JSON object found: line 1 column 1 (char 0)'')
           | Some matched \<Rightarrow> loads ext matched)"
    using failed by (rule parse_profile_retry)
  show "re_search is_match_rx response = None
          \<longleftrightarrow> \<not> (\<exists>pre matched post. response = pre @ matched @ post \<and> is_match_object matched)"
    by (rule re_search_is_match_none)
next
  fix matched
  show "re_search is_match_rx response = Some matched
          \<longleftrightarrow> leftmost_is_match_object response matched"
    by (rule re_search_is_match_leftmost)
next
  fix matched
  assume "leftmost_is_match_object response matched"
  then have "re_search is_match_rx response = Some matched"
    by (rule re_search_is_match_leftmost [THEN iffD2])
  then show "parse_verdict ext response
          = (case loads ext matched of
               Inr result \<Rightarrow> Inr result
             | Inl e \<Rightarrow> Inr (keyword_verdict response))"
    by (simp add: parse_verdict_retry [OF failed])
next
  assume "\<not> (\<exists>pre matched post. response = pre @ matched @ post \<and> is_match_object matched)"
  then have "re_search is_match_rx response = None"
    by (rule re_search_is_match_none [THEN iffD2])
  then show "parse_verdict ext response = Inr (keyword_verdict response)"
    by (simp add: parse_verdict_retry [OF failed])
qed

lemma sample_search:
  \<open>re_search is_match_rx ''{"is_match": true} and {"x": 1}'' = Some ''{"is_match": true}''\<close>
  by code_simp

lemma sample_widest:
  \<open>spec_widest_span ''{"is_match": true} and {"x": 1}'' = Some ''{"is_match": true} and {"x": 1}''\<close>
  by code_simp

lemma sample_normalize:
  \<open>normalize ''{"is_match": true} and {"x": 1}'' = ''{"is_match": true} and {"x": 1}''\<close>
  by code_simp

lemma sample_loads:
  \<open>loads flat_object_service ''{"is_match": true} and {"x": 1}''
     = Inl (JSONDecodeError ''Extra data: line 1 column 20 (char 19)'')\<close>
  \<open>loads flat_object_service ''{"is_match": true}'' = Inr (JObj [(''is_match'', JBool True)])\<close>
  by (simp_all add: flat_object_service_def)

lemma sample_no_object: "re_search is_match_rx ''It is hard to say.'' = None"
  by code_simp

theorem second_parse_attempts_witness:
  \<open>loads flat_object_service (normalize ''{"is_match": true} and {"x": 1}'')
     = Inl (JSONDecodeError ''Extra data: line 1 column 20 (char 19)'')
   \<and> parse_profile flat_object_service (normalize (str_strip ''{"is_match": true} and {"x": 1}''))
     = Inl (JSONDecodeError ''Extra data: line 1 column 20 (char 19)'')
   \<and> leftmost_is_match_object ''{"is_match": true} and {"x": 1}'' ''{"is_match": true}''
   \<and> parse_verdict flat_object_service ''{"is_match": true} and {"x": 1}''
     = Inr (JObj [(''is_match'', JBool True)])
   \<and> loads vague_service (normalize ''It is hard to say.'')
     = Inl (JSONDecodeError ''Expecting value: line 1 column 1 (char 0)'')
   \<and> \<not> (\<exists>pre matched post. ''It is hard to say.'' = pre @ matched @ post \<and> is_match_object matched)
   \<and> parse_verdict vague_service ''It is hard to say.'' = Inr (keyword_verdict ''It is hard to say.'')\<close>
proof -
  have failed: \<open>loads flat_object_service (normalize ''{"is_match": true} and {"x": 1}'')
     = Inl (JSONDecodeError ''Extra data: line 1 column 20 (char 19)'')\<close>
    by (simp add: sample_normalize sample_loads)
  note t = second_parse_attempts [OF failed]
  have p: \<open>parse_profile flat_object_service (normalize (str_strip ''{"is_match": true} and {"x": 1}''))
     = Inl (JSONDecodeError ''Extra data: line 1 column 20 (char 19)'')\<close>
    using t [THEN conjunct2, THEN conjunct1] unfolding sample_widest
    by (simp add: sample_loads)
  have l: \<open>leftmost_is_match_object ''{"is_match": true} and {"x": 1}'' ''{"is_match": true}''\<close>
    using t [THEN conjunct2, THEN conjunct2, THEN conjunct1] sample_search by blast
  have v: \<open>parse_verdict flat_object_service ''{"is_match": true} and {"x": 1}''
     = Inr (JObj [(''is_match'', JBool True)])\<close>
    using t [THEN conjunct2, THEN conjunct2, THEN conjunct2, THEN conjunct2, THEN conjunct1,
        THEN spec, THEN mp, OF l]
    by (simp add: sample_loads)
  have failed': "loads vague_service (normalize ''It is hard to say.'')
     = Inl (JSONDecodeError ''Expecting value: line 1 column 1 (char 0)'')"
    by (simp add: vague_service_def)
  note u = second_parse_attempts [OF failed']
  have n: "\<not> (\<exists>pre matched post. ''It is hard to say.'' = pre @ matched @ post \<and> is_match_object matched)"
    using u [THEN conjunct2, THEN conjunct2, THEN conjunct2, THEN conjunct1] sample_no_object
    by (rule iffD1)
  have k: "parse_verdict vague_service ''It is hard to say.'' = Inr (keyword_verdict ''It is hard to say.'')"
    using u [THEN conjunct2, THEN conjunct2, THEN conjunct2, THEN conjunct2, THEN conjunct2] n
    by (rule mp)
  from failed p l v failed' n k show ?thesis by (intro conjI)
qed

text \<open>
  The claim as stated fails in the verdict path on a flat object followed by more
  text and a second object: the widest span is the whole response, which does not
  parse, and the second attempt parses the flat object alone and returns it.
\<close>

theorem second_parse_attempts_counterexample:
  \<open>loads flat_object_service (normalize ''{"is_match": true} and {"x": 1}'')
     = Inl (JSONDecodeError ''Extra data: line 1 column 20 (char 19)'')
   \<and> spec_widest_span ''{"is_match": true} and {"x": 1}''
     = Some ''{"is_match": true} and {"x": 1}''
   \<and> loads flat_object_service ''{"is_match": true} and {"x": 1}''
     = Inl (JSONDecodeError ''Extra data: line 1 column 20 (char 19)'')
   \<and> regex_verdict flat_object_service ''{"is_match": true} and {"x": 1}''
     = Some (JObj [(''is_match'', JBool True)])
   \<and> parse_verdict flat_object_service ''{"is_match": true} and {"x": 1}''
     = Inr (JObj [(''is_match'', JBool True)])\<close>
  unfolding parse_verdict_def regex_verdict_def sample_normalize sample_widest sample_search
  by (simp add: sample_loads)

end
